theory Spec2Isabelle
  imports Main "HOL-Library.AList"
begin

section \<open>Python values, exceptions and ordered dictionaries\<close>

text \<open>
  The exceptions the modelled code can raise. A method of a mutable object is a function
  from the object to an outcome (the value returned or the exception raised) paired with
  the object as the call leaves it: a method that mutates and then raises returns the
  mutated object next to the exception.
\<close>

datatype py_error = ValueError | AttributeError | NameError | IndexError | KeyError

datatype 'a outcome = Returned 'a | Raised py_error

text \<open>
  An \<^verbatim>\<open>OrderedDict\<close> is an association list in insertion order.
  \<^verbatim>\<open>d[k] = v\<close> is \<^const>\<open>AList.update\<close> (in place when the key is there, appended when
  it is not), \<^verbatim>\<open>d.pop(k, None)\<close> is \<^const>\<open>AList.delete\<close>, \<^verbatim>\<open>k in d\<close> is
  membership in the keys and \<^verbatim>\<open>d[k]\<close> is \<^const>\<open>map_of\<close>.
\<close>

type_synonym ('k, 'v) odict = "('k \<times> 'v) list"

definition od_keys :: "('k, 'v) odict \<Rightarrow> 'k list" where
  "od_keys d = map fst d"

definition od_values :: "('k, 'v) odict \<Rightarrow> 'v list" where
  "od_values d = map snd d"

definition od_in :: "'k \<Rightarrow> ('k, 'v) odict \<Rightarrow> bool" where
  "od_in k d = (k \<in> set (od_keys d))"

definition move_to_front :: "'k \<Rightarrow> ('k, 'v) odict \<Rightarrow> ('k, 'v) odict" where
  \<comment> \<open>\<^verbatim>\<open>d.move_to_end(k, last=False)\<close> for a key that is present\<close>
  "move_to_front k d =
     (case map_of d k of None \<Rightarrow> d | Some v \<Rightarrow> (k, v) # AList.delete k d)"

text \<open>An argument that the source accepts as a name or as the object carrying it.\<close>

datatype 'a str_or = Str string | Obj 'a

section \<open>Schema model\<close>

text \<open>
  Modelled from the spec: the classes of columns, indexes and foreign keys are not part of
  the sources at hand; their fields are the ones section 3 of the specification lists. The
  rendering \<^verbatim>\<open>str(column)\<close> is the column's SQL source string, the one the
  specification compares byte for byte.
\<close>

record column =
  col_name :: string
  col_type :: string
  col_length :: "nat option"
  col_unsigned :: bool
  col_null :: bool
  col_default :: "string option"
  col_auto_increment :: bool
  col_character_set :: "string option"
  col_collate :: "string option"
  col_sql :: string

datatype index_type = Primary | Unique | Regular | Fulltext

record index =
  idx_name :: string
  idx_columns :: "string list"
  idx_type :: index_type

datatype fk_action = Restrict | Cascade | Set_Null | No_Action

record constraint =
  fk_name :: string
  fk_local_columns :: "string list"
  fk_foreign_table :: string
  fk_foreign_columns :: "string list"
  fk_on_delete :: fk_action
  fk_on_update :: fk_action

definition str_column :: "column \<Rightarrow> string" where
  "str_column c = col_sql c"

definition comma_backticked :: "string list \<Rightarrow> string" where
  "comma_backticked cs =
     (case cs of [] \<Rightarrow> []
      | c # rest \<Rightarrow> ''`'' @ c @ ''`'' @ concat (map (\<lambda>x. '',`'' @ x @ ''`'') rest))"

definition str_index :: "index \<Rightarrow> string" where
  \<comment> \<open>Modelled from the spec: the key forms of section 6\<close>
  "str_index i =
     (case idx_type i of
        Primary \<Rightarrow> ''PRIMARY KEY (''
      | Unique \<Rightarrow> ''UNIQUE KEY `'' @ idx_name i @ ''` (''
      | Regular \<Rightarrow> ''KEY `'' @ idx_name i @ ''` (''
      | Fulltext \<Rightarrow> ''FULLTEXT KEY `'' @ idx_name i @ ''` ('')
     @ comma_backticked (idx_columns i) @ '')''"

definition str_action :: "fk_action \<Rightarrow> string" where
  "str_action a =
     (case a of Restrict \<Rightarrow> ''RESTRICT'' | Cascade \<Rightarrow> ''CASCADE''
      | Set_Null \<Rightarrow> ''SET NULL'' | No_Action \<Rightarrow> ''NO ACTION'')"

definition str_constraint :: "constraint \<Rightarrow> string" where
  \<comment> \<open>Modelled from the spec: the constraint form of section 6\<close>
  "str_constraint c =
     ''CONSTRAINT `'' @ fk_name c @ ''` FOREIGN KEY ('' @ comma_backticked (fk_local_columns c)
     @ '') REFERENCES `'' @ fk_foreign_table c @ ''` ('' @ comma_backticked (fk_foreign_columns c)
     @ '') ON DELETE '' @ str_action (fk_on_delete c)
     @ '' ON UPDATE '' @ str_action (fk_on_update c)"

text \<open>
  Modelled from the spec: the class \<^verbatim>\<open>rows\<close> (seed data of one INSERT) is not part of the
  sources at hand. \<^verbatim>\<open>add_rows\<close> reads four attributes of it.
\<close>

record rows =
  rows_errors :: "string list"
  rows_columns :: "string list"
  num_explicit_columns :: nat
  raw_rows :: "string list list"

text \<open>
  The class \<^verbatim>\<open>table\<close> of \<^verbatim>\<open>definitions/table.py\<close>. \<^verbatim>\<open>_rows\<close> and
  \<^verbatim>\<open>_indexed_columns\<close> start as \<^verbatim>\<open>None\<close>.
\<close>

record table =
  name :: string
  options :: "string list"
  columns :: "(string, column) odict"
  indexes :: "(string, index) odict"
  constraints :: "(string, constraint) odict"
  primary :: string
  rows :: "(int, (string \<times> string) list) odict option"
  errors :: "string list"
  warnings :: "string list"
  auto_increment :: int
  indexed_columns :: "string set option"

definition empty_table :: "string \<Rightarrow> table" where
  \<comment> \<open>\<^verbatim>\<open>table.__init__\<close>\<close>
  "empty_table n = \<lparr> name = n, options = [], columns = [], indexes = [], constraints = [],
     primary = [], rows = None, errors = [], warnings = [], auto_increment = 1,
     indexed_columns = None \<rparr>"

section \<open>Methods of a table\<close>

subsection \<open>\<^verbatim>\<open>column_before\<close> and \<^verbatim>\<open>column_is_indexed\<close>\<close>

text \<open>
  A position is what \<^verbatim>\<open>column_before\<close> returns and what \<^verbatim>\<open>add_column\<close> takes as its
  second argument: \<^verbatim>\<open>False\<close> (the default: at the end), \<^verbatim>\<open>True\<close> (first) or the name
  of the column to go after.
\<close>

datatype position = PBool bool | PStr string

fun truthy :: "position \<Rightarrow> bool" where
  "truthy (PBool b) = b"
| "truthy (PStr s) = (s \<noteq> [])"

fun name_before :: "string \<Rightarrow> string list \<Rightarrow> position" where
  \<comment> \<open>\<^verbatim>\<open>columns[index - 1]\<close> for the first occurrence of the name, \<^verbatim>\<open>True\<close> at index 0\<close>
  "name_before c [] = PBool True"
| "name_before c [x] = PBool True"
| "name_before c (x # y # ys) =
     (if c = x then PBool True else if c = y then PStr x else name_before c (y # ys))"

definition column_before :: "string \<Rightarrow> table \<Rightarrow> position outcome" where
  "column_before column_name t =
     (if column_name \<notin> set (od_keys (columns t)) then Raised ValueError
      else Returned (name_before column_name (od_keys (columns t))))"

definition column_is_indexed :: "column str_or \<Rightarrow> table \<Rightarrow> bool outcome \<times> table" where
  "column_is_indexed column_arg t =
     (let column = (case column_arg of Str s \<Rightarrow> s | Obj c \<Rightarrow> col_name c) in
      if \<not> od_in column (columns t) then (Returned False, t)
      else case indexed_columns t of
        Some cache \<Rightarrow> (Returned (column \<in> cache), t)
      | None \<Rightarrow>
          \<comment> \<open>\<^verbatim>\<open>index.columns[0]\<close> raises on an index without columns\<close>
          if list_ex (\<lambda>i. idx_columns i = []) (od_values (indexes t))
          then (Raised IndexError, t)
          else
            let cache = set (map (\<lambda>i. hd (idx_columns i)) (od_values (indexes t)))
            in (Returned (column \<in> cache), t\<lparr>indexed_columns := Some cache\<rparr>))"

subsection \<open>Mutations of the columns\<close>

definition add_column_after ::
  "column \<Rightarrow> string \<Rightarrow> (string, column) odict \<Rightarrow> bool \<times> (string, column) odict" where
  \<comment> \<open>the loop of \<^verbatim>\<open>add_column\<close> that rebuilds the dictionary: (found, new_columns)\<close>
  "add_column_after column pos cols =
     fold (\<lambda>(key, value) (found, new_columns).
             let new_columns = AList.update key value new_columns in
             if key = pos
             then (True, AList.update (col_name column) column new_columns)
             else (found, new_columns))
          cols (False, [])"

definition add_column :: "column \<Rightarrow> position \<Rightarrow> table \<Rightarrow> bool outcome \<times> table" where
  "add_column column pos t =
     (if od_in (col_name column) (columns t) then (Raised ValueError, t)
      else if \<not> truthy pos
      then (Returned True, t\<lparr>columns := AList.update (col_name column) column (columns t)\<rparr>)
      else case pos of
        PBool _ \<Rightarrow>
          (Returned True,
           t\<lparr>columns := move_to_front (col_name column)
                          (AList.update (col_name column) column (columns t))\<rparr>)
      | PStr p \<Rightarrow>
          (case add_column_after column p (columns t) of
             (found, new_columns) \<Rightarrow>
               if \<not> found then (Raised ValueError, t)
               else (Returned True, t\<lparr>columns := new_columns\<rparr>)))"

definition remove_column :: "column str_or \<Rightarrow> table \<Rightarrow> unit outcome \<times> table" where
  "remove_column column_arg t =
     (let column_name = (case column_arg of Str s \<Rightarrow> s | Obj c \<Rightarrow> col_name c) in
      if \<not> od_in column_name (columns t) then (Raised ValueError, t)
      else (Returned (), t\<lparr>columns := AList.delete column_name (columns t)\<rparr>))"

definition change_column :: "column \<Rightarrow> table \<Rightarrow> unit outcome \<times> table" where
  "change_column new_column t =
     (if \<not> od_in (col_name new_column) (columns t) then (Raised ValueError, t)
      else (Returned (),
            t\<lparr>columns := AList.update (col_name new_column) new_column (columns t)\<rparr>))"

subsection \<open>Mutations of the keys\<close>

text \<open>
  The three methods maintain \<^verbatim>\<open>_indexed_columns\<close> once it has been built. The columns of
  an index are names (strings), as \<^verbatim>\<open>column_is_indexed\<close> uses them, so the attribute
  access \<^verbatim>\<open>key.columns[0].name\<close> raises \<^verbatim>\<open>AttributeError\<close> (or \<^verbatim>\<open>IndexError\<close> before it,
  when the index has no column); in \<^verbatim>\<open>remove_key\<close> the variable \<^verbatim>\<open>key\<close> is by then the
  name itself, and \<^verbatim>\<open>key.columns\<close> raises \<^verbatim>\<open>AttributeError\<close>.
\<close>

definition first_column_name :: "index \<Rightarrow> string outcome" where
  \<comment> \<open>\<^verbatim>\<open>key.columns[0].name\<close>\<close>
  "first_column_name key =
     (case idx_columns key of [] \<Rightarrow> Raised IndexError | c # _ \<Rightarrow> Raised AttributeError)"

definition add_key :: "index \<Rightarrow> table \<Rightarrow> unit outcome \<times> table" where
  "add_key key t =
     (if od_in (idx_name key) (indexes t) then (Raised ValueError, t)
      else
        let t1 = t\<lparr>indexes := AList.update (idx_name key) key (indexes t)\<rparr> in
        case indexed_columns t1 of
          None \<Rightarrow> (Returned (), t1)
        | Some cache \<Rightarrow>
            (case first_column_name key of
               Raised e \<Rightarrow> (Raised e, t1)
             | Returned c \<Rightarrow> (Returned (), t1\<lparr>indexed_columns := Some (insert c cache)\<rparr>)))"

definition remove_key :: "index str_or \<Rightarrow> table \<Rightarrow> unit outcome \<times> table" where
  "remove_key key_arg t =
     (let key = (case key_arg of Str s \<Rightarrow> s | Obj k \<Rightarrow> idx_name k) in
      if \<not> od_in key (indexes t) then (Raised ValueError, t)
      else
        let t1 = t\<lparr>indexes := AList.delete key (indexes t)\<rparr> in
        case indexed_columns t1 of
          None \<Rightarrow> (Returned (), t1)
        | Some cache \<Rightarrow> (Raised AttributeError, t1))"

definition change_key :: "index \<Rightarrow> table \<Rightarrow> unit outcome \<times> table" where
  "change_key new_key t =
     (case map_of (indexes t) (idx_name new_key) of
        None \<Rightarrow> (Raised ValueError, t)
      | Some old_key \<Rightarrow>
          (case indexed_columns t of
             None \<Rightarrow>
               (Returned (), t\<lparr>indexes := AList.update (idx_name new_key) new_key (indexes t)\<rparr>)
           | Some cache \<Rightarrow>
               (case first_column_name old_key of
                  Raised e \<Rightarrow> (Raised e, t)
                | Returned c \<Rightarrow>
                    let t1 = t\<lparr>indexed_columns := Some (cache - {c}),
                               indexes := AList.update (idx_name new_key) new_key (indexes t)\<rparr>
                    in (case first_column_name new_key of
                          Raised e \<Rightarrow> (Raised e, t1)
                        | Returned c' \<Rightarrow>
                            (Returned (),
                             t1\<lparr>indexed_columns := Some (insert c' (cache - {c}))\<rparr>)))))"

subsection \<open>Mutations of the constraints\<close>

definition add_constraint :: "constraint \<Rightarrow> table \<Rightarrow> unit outcome \<times> table" where
  "add_constraint c t =
     (if od_in (fk_name c) (constraints t) then (Raised ValueError, t)
      else (Returned (), t\<lparr>constraints := AList.update (fk_name c) c (constraints t)\<rparr>))"

definition remove_constraint :: "constraint str_or \<Rightarrow> table \<Rightarrow> unit outcome \<times> table" where
  "remove_constraint constraint_arg t =
     (let c = (case constraint_arg of Str s \<Rightarrow> s | Obj k \<Rightarrow> fk_name k) in
      if \<not> od_in c (constraints t) then (Raised ValueError, t)
      else (Returned (), t\<lparr>constraints := AList.delete c (constraints t)\<rparr>))"

definition change_constraint :: "constraint \<Rightarrow> table \<Rightarrow> unit outcome \<times> table" where
  "change_constraint new_constraint t =
     (if \<not> od_in (fk_name new_constraint) (constraints t) then (Raised ValueError, t)
      else (Returned (),
            t\<lparr>constraints :=
                 AList.update (fk_name new_constraint) new_constraint (constraints t)\<rparr>))"

subsection \<open>\<^verbatim>\<open>add_rows\<close>\<close>

text \<open>
  \<^verbatim>\<open>int(s)\<close> on a string: white space around, an optional sign, then decimal digits,
  single underscores allowed between digits. Anything else raises \<^verbatim>\<open>ValueError\<close>. A
  character of the model is the code point below 256 of that value; the white space among
  those is what \<^verbatim>\<open>str.isspace\<close> accepts there: tab to carriage return, the four
  separators from U+001C to U+001F, the blank, U+0085 and U+00A0.
\<close>

definition is_space :: "char \<Rightarrow> bool" where
  "is_space c = (c \<in> {CHR '' '', CHR 0x09, CHR 0x0A, CHR 0x0B, CHR 0x0C, CHR 0x0D,
     CHR 0x1C, CHR 0x1D, CHR 0x1E, CHR 0x1F, CHR 0x85, CHR 0xA0})"

definition is_digit :: "char \<Rightarrow> bool" where
  "is_digit c = (48 \<le> (of_char c :: nat) \<and> (of_char c :: nat) \<le> 57)"

definition strip :: "string \<Rightarrow> string" where
  "strip s = rev (dropWhile is_space (rev (dropWhile is_space s)))"

fun py_digits :: "nat \<Rightarrow> bool \<Rightarrow> string \<Rightarrow> nat option" where
  "py_digits acc after_digit [] = (if after_digit then Some acc else None)"
| "py_digits acc after_digit (c # cs) =
     (if is_digit c then py_digits (10 * acc + (of_char c - 48)) True cs
      else if c = CHR ''_'' \<and> after_digit then py_digits acc False cs
      else None)"

definition py_int :: "string \<Rightarrow> int outcome" where
  "py_int s =
     (case strip s of
        [] \<Rightarrow> Raised ValueError
      | c # cs \<Rightarrow>
          if c = CHR ''-'' then
            (case py_digits 0 False cs of None \<Rightarrow> Raised ValueError
             | Some n \<Rightarrow> Returned (- int n))
          else
            (case py_digits 0 False (if c = CHR ''+'' then cs else c # cs) of
               None \<Rightarrow> Raised ValueError
             | Some n \<Rightarrow> Returned (int n)))"

fun list_index :: "'a \<Rightarrow> 'a list \<Rightarrow> nat outcome" where
  \<comment> \<open>\<^verbatim>\<open>xs.index(x)\<close>\<close>
  "list_index x [] = Raised ValueError"
| "list_index x (y # ys) =
     (if x = y then Returned 0
      else case list_index x ys of Raised e \<Rightarrow> Raised e | Returned i \<Rightarrow> Returned (Suc i))"

definition explicit_row_id :: "string list \<Rightarrow> string list \<Rightarrow> int outcome" where
  \<comment> \<open>the body of the \<^verbatim>\<open>try\<close>: \<^verbatim>\<open>int(values[columns.index('id')])\<close>\<close>
  "explicit_row_id cols vals =
     (case list_index ''id'' cols of
        Raised e \<Rightarrow> Raised e
      | Returned id_index \<Rightarrow>
          if id_index < length vals then py_int (vals ! id_index) else Raised IndexError)"

text \<open>
  What \<^verbatim>\<open>add_rows\<close> returns: \<^verbatim>\<open>True\<close>, \<^verbatim>\<open>False\<close>, or one of two messages, kept here
  with the table name and the row they are formatted from.
\<close>

datatype add_rows_result =
  RBool bool
  | Wrong_Number_Of_Values string "string list"
  | Duplicate_Row_Id string "string list"

text \<open>
  The handler of the \<^verbatim>\<open>try\<close> is \<^verbatim>\<open>except ValuerError\<close>. No such name is defined, so
  when the body raises anything, evaluating the handler's class raises \<^verbatim>\<open>NameError\<close>,
  and the assignment \<^verbatim>\<open>row_id = self._auto_increment\<close> under it is never reached.
\<close>

fun add_rows_loop ::
  "bool \<Rightarrow> string list \<Rightarrow> string list list \<Rightarrow> table \<Rightarrow> add_rows_result outcome \<times> table" where
  "add_rows_loop explicit cols [] t = (Returned (RBool True), t)"
| "add_rows_loop explicit cols (vals # rest) t =
     (if \<not> explicit \<and> length vals \<noteq> length cols
      then (Returned (Wrong_Number_Of_Values (name t) vals), t)
      else case explicit_row_id cols vals of
        Raised e \<Rightarrow> (Raised NameError, t)
      | Returned row_id \<Rightarrow>
          let t1 = t\<lparr>auto_increment := max (auto_increment t) (row_id + 1)\<rparr>;
              stored = (case rows t1 of None \<Rightarrow> [] | Some r \<Rightarrow> r)
          in if od_in row_id stored
             then (Returned (Duplicate_Row_Id (name t) vals), t1)
             else add_rows_loop explicit cols rest
                    (t1\<lparr>rows := Some (AList.update row_id
                            (fold (\<lambda>(k, v). AList.update k v) (zip cols vals) []) stored)\<rparr>))"

definition add_rows :: "rows \<Rightarrow> table \<Rightarrow> add_rows_result outcome \<times> table" where
  "add_rows rs t =
     (if rows_errors rs \<noteq> [] then (Returned (RBool False), t)
      else
        let t1 = (case rows t of None \<Rightarrow> t\<lparr>rows := Some []\<rparr> | Some _ \<Rightarrow> t);
            explicit = (num_explicit_columns rs \<noteq> 0);
            cols = (if explicit then rows_columns rs else od_keys (columns t1))
        in add_rows_loop explicit cols (raw_rows rs) t1)"

section \<open>Operation model\<close>

text \<open>
  Modelled from the spec: the operation classes (\<^verbatim>\<open>mygrations/operations\<close>) are not part
  of the sources at hand. An operation carries the object it describes; an
  \<^verbatim>\<open>alter_table\<close> groups sub-operations on one table, \<^verbatim>\<open>add_operation\<close> appends to
  it, iterating it yields its sub-operations and it is falsy when it has none.
\<close>

datatype sub_operation =
  Add_Column column position
  | Change_Column column
  | Remove_Column column
  | Add_Key index
  | Change_Key index
  | Remove_Key index
  | Add_Constraint constraint
  | Change_Constraint constraint
  | Remove_Constraint constraint

record alter_table =
  alter_name :: string
  alter_operations :: "sub_operation list"

datatype operation =
  Create_Table table
  | Remove_Table string
  | Alter_Table alter_table

fun apply_to_table :: "sub_operation \<Rightarrow> table \<Rightarrow> unit outcome \<times> table" where
  "apply_to_table (Add_Column c p) t =
     (case add_column c p t of (Returned _, t') \<Rightarrow> (Returned (), t') | (Raised e, t') \<Rightarrow> (Raised e, t'))"
| "apply_to_table (Change_Column c) t = change_column c t"
| "apply_to_table (Remove_Column c) t = remove_column (Obj c) t"
| "apply_to_table (Add_Key k) t = add_key k t"
| "apply_to_table (Change_Key k) t = change_key k t"
| "apply_to_table (Remove_Key k) t = remove_key (Obj k) t"
| "apply_to_table (Add_Constraint c) t = add_constraint c t"
| "apply_to_table (Change_Constraint c) t = change_constraint c t"
| "apply_to_table (Remove_Constraint c) t = remove_constraint (Obj c) t"

section \<open>The table differ: \<^verbatim>\<open>table.to\<close>\<close>

definition obind :: "'a outcome \<Rightarrow> ('a \<Rightarrow> 'b outcome) \<Rightarrow> 'b outcome" where
  \<comment> \<open>sequencing: a raise ends the computation\<close>
  "obind r f = (case r of Raised e \<Rightarrow> Raised e | Returned x \<Rightarrow> f x)"

definition od_get :: "'k \<Rightarrow> ('k, 'v) odict \<Rightarrow> 'v outcome" where
  \<comment> \<open>\<^verbatim>\<open>d[k]\<close>\<close>
  "od_get k d = (case map_of d k of None \<Rightarrow> Raised KeyError | Some v \<Rightarrow> Returned v)"

fun collect :: "('a \<Rightarrow> 'b list outcome) \<Rightarrow> 'a list \<Rightarrow> 'b list outcome" where
  \<comment> \<open>a \<^verbatim>\<open>for\<close> loop whose body adds operations (none on \<^verbatim>\<open>continue\<close>) or raises\<close>
  "collect body [] = Returned []"
| "collect body (x # xs) =
     obind (body x) (\<lambda>ys. obind (collect body xs) (\<lambda>zs. Returned (ys @ zs)))"

definition differences ::
  "('k, 'a) odict \<Rightarrow> ('k, 'b) odict \<Rightarrow> 'k list \<times> 'k list \<times> 'k list" where
  \<comment> \<open>(added, removed, overlap)\<close>
  "differences a b =
     ([key \<leftarrow> od_keys b. \<not> od_in key a],
      [key \<leftarrow> od_keys a. \<not> od_in key b],
      [key \<leftarrow> od_keys a. od_in key b])"

definition changed :: "('v \<Rightarrow> string) \<Rightarrow> ('v \<Rightarrow> sub_operation) \<Rightarrow>
    (string, 'v) odict \<Rightarrow> (string, 'v) odict \<Rightarrow> string \<Rightarrow> sub_operation list outcome" where
  \<comment> \<open>the body of the three loops over an overlap: skip when the renderings are equal\<close>
  "changed str mk mine theirs key =
     obind (od_get key mine) (\<lambda>a.
     obind (od_get key theirs) (\<lambda>b.
       Returned (if str a = str b then [] else [mk b])))"

record split_operations =
  removed_fks :: "alter_table option"
  kitchen_sink :: "alter_table option"
  fks :: "alter_table option"

datatype to_result = Split split_operations | Flat "alter_table list"

definition if_any :: "string \<Rightarrow> sub_operation list \<Rightarrow> alter_table option" where
  \<comment> \<open>the dictionary entry of an alter, present when the alter is truthy\<close>
  "if_any n ops =
     (if ops = [] then None else Some \<lparr> alter_name = n, alter_operations = ops \<rparr>)"

definition to :: "table \<Rightarrow> table \<Rightarrow> bool \<Rightarrow> to_result outcome" where
  "to self comparison_table split =
     (case differences (columns self) (columns comparison_table) of
        (added_columns, removed_columns, overlap_columns) \<Rightarrow>
      case differences (indexes self) (indexes comparison_table) of
        (added_keys, removed_keys, overlap_keys) \<Rightarrow>
      case differences (constraints self) (constraints comparison_table) of
        (added_constraints, removed_constraints, overlap_constraints) \<Rightarrow>
      obind (collect (\<lambda>new_column.
               obind (od_get new_column (columns comparison_table)) (\<lambda>c.
               obind (column_before new_column comparison_table) (\<lambda>p.
                 Returned [Add_Column c p]))) added_columns) (\<lambda>col_added.
      obind (collect (changed str_column Change_Column (columns self)
               (columns comparison_table)) overlap_columns) (\<lambda>col_changed.
      obind (collect (\<lambda>removed_column.
               obind (od_get removed_column (columns self)) (\<lambda>c.
                 Returned [Remove_Column c])) removed_columns) (\<lambda>col_removed.
      obind (collect (\<lambda>new_key.
               obind (od_get new_key (indexes comparison_table)) (\<lambda>k.
                 Returned [Add_Key k])) added_keys) (\<lambda>key_added.
      obind (collect (\<lambda>removed_key.
               obind (od_get removed_key (indexes self)) (\<lambda>k.
                 Returned [Remove_Key k])) removed_keys) (\<lambda>key_removed.
      obind (collect (changed str_index Change_Key (indexes self)
               (indexes comparison_table)) overlap_keys) (\<lambda>key_changed.
      obind (collect (\<lambda>removed_constraint.
               obind (od_get removed_constraint (constraints self)) (\<lambda>c.
                 Returned [Remove_Constraint c])) removed_constraints) (\<lambda>fk_removed.
      obind (collect (\<lambda>added_constraint.
               obind (od_get added_constraint (constraints comparison_table)) (\<lambda>c.
                 Returned [Add_Constraint c])) added_constraints) (\<lambda>fk_added.
      obind (collect (changed str_constraint Change_Constraint (constraints self)
               (constraints comparison_table)) overlap_constraints) (\<lambda>fk_changed.
        let primary_alter =
              col_added @ col_changed @ col_removed @ key_added @ key_removed @ key_changed;
            removed_constraints_alter = fk_removed;
            constraints_alter = fk_added @ fk_changed
        in if split
           then Returned (Split \<lparr>
                  removed_fks = if_any (name self) removed_constraints_alter,
                  kitchen_sink = if_any (name self) primary_alter,
                  fks = if_any (name self) constraints_alter \<rparr>)
           else Returned (Flat
                  (case if_any (name self)
                          (primary_alter @ constraints_alter @ removed_constraints_alter) of
                     None \<Rightarrow> [] | Some alter \<Rightarrow> [alter]))))))))))))"

section \<open>The database\<close>

text \<open>
  Modelled from the spec: the class \<^verbatim>\<open>database\<close> is not part of the sources at hand. It is
  an ordered mapping from names to tables. \<^verbatim>\<open>unfulfilled_fks\<close> follows the four rules of
  section 4.1 of the specification, in their order: the referenced table is missing, a
  referenced column is missing, no index of the referenced table starts with the referenced
  columns in their order, a local column and the column it references differ in type,
  signedness or length. The error is kept with the name of the constraint it is about.
\<close>

record database =
  tables :: "(string, table) odict"

definition empty_database :: database where
  "empty_database = \<lparr> tables = [] \<rparr>"

definition add_table :: "table \<Rightarrow> database \<Rightarrow> database" where
  "add_table t db = db\<lparr>tables := AList.update (name t) t (tables db)\<rparr>"

definition remove_table :: "string \<Rightarrow> database \<Rightarrow> database" where
  "remove_table n db = db\<lparr>tables := AList.delete n (tables db)\<rparr>"

datatype reason_1215 =
  Unknown_Table string
  | Unknown_Column string string
  | Missing_Index string "string list"
  | Type_Mismatch string string

type_synonym error_1215 = "string \<times> reason_1215"

definition compatible :: "column \<Rightarrow> column \<Rightarrow> bool" where
  "compatible a b =
     (col_type a = col_type b \<and> col_unsigned a = col_unsigned b \<and> col_length a = col_length b)"

definition covered :: "string list \<Rightarrow> table \<Rightarrow> bool" where
  \<comment> \<open>some index has exactly these columns as its leftmost ones\<close>
  "covered cs t = list_ex (\<lambda>i. take (length cs) (idx_columns i) = cs) (od_values (indexes t))"

definition mismatch :: "table \<Rightarrow> table \<Rightarrow> string \<times> string \<Rightarrow> bool" where
  "mismatch t foreign = (\<lambda>(l, f).
     case (map_of (columns t) l, map_of (columns foreign) f) of
       (Some a, Some b) \<Rightarrow> \<not> compatible a b
     | _ \<Rightarrow> True)"

definition find_1215 :: "database \<Rightarrow> table \<Rightarrow> constraint \<Rightarrow> reason_1215 option" where
  "find_1215 db t c =
     (case map_of (tables db) (fk_foreign_table c) of
        None \<Rightarrow> Some (Unknown_Table (fk_foreign_table c))
      | Some foreign \<Rightarrow>
          (case filter (\<lambda>f. \<not> od_in f (columns foreign)) (fk_foreign_columns c) of
             f # _ \<Rightarrow> Some (Unknown_Column (fk_foreign_table c) f)
           | [] \<Rightarrow>
               if \<not> covered (fk_foreign_columns c) foreign
               then Some (Missing_Index (fk_foreign_table c) (fk_foreign_columns c))
               else
                 (case filter (mismatch t foreign)
                         (zip (fk_local_columns c) (fk_foreign_columns c)) of
                    (l, f) # _ \<Rightarrow> Some (Type_Mismatch l f)
                  | [] \<Rightarrow> None)))"

definition unfulfilled_fks ::
  "database \<Rightarrow> table \<Rightarrow> (string, error_1215 \<times> constraint) odict" where
  \<comment> \<open>constraint name \<open>\<mapsto>\<close> (error, foreign_key)\<close>
  "unfulfilled_fks db t =
     List.map_filter (\<lambda>(n, c).
        case find_1215 db t c of None \<Rightarrow> None | Some r \<Rightarrow> Some (n, ((fk_name c, r), c)))
       (constraints t)"

fun apply_sub_operations :: "sub_operation list \<Rightarrow> table \<Rightarrow> unit outcome \<times> table" where
  "apply_sub_operations [] t = (Returned (), t)"
| "apply_sub_operations (x # xs) t =
     (case apply_to_table x t of
        (Raised e, t') \<Rightarrow> (Raised e, t')
      | (Returned _, t') \<Rightarrow> apply_sub_operations xs t')"

fun apply_operation :: "operation \<Rightarrow> database \<Rightarrow> database outcome" where
  \<comment> \<open>what an emitted operation does to a schema\<close>
  "apply_operation (Create_Table t) db = Returned (add_table t db)"
| "apply_operation (Remove_Table n) db = Returned (remove_table n db)"
| "apply_operation (Alter_Table a) db =
     obind (od_get (alter_name a) (tables db)) (\<lambda>t.
       case apply_sub_operations (alter_operations a) t of
         (Raised e, _) \<Rightarrow> Raised e
       | (Returned _, t') \<Rightarrow> Returned (db\<lparr>tables := AList.update (alter_name a) t' (tables db)\<rparr>))"

section \<open>The planner: \<^verbatim>\<open>mygration\<close>\<close>

subsection \<open>\<^verbatim>\<open>_process_adds\<close>\<close>

text \<open>
  The state of \<^verbatim>\<open>_process_adds\<close>: the tracking database and the list of pending names
  (both passed in and modified in place), and its three local variables.
\<close>

record adds_state =
  tracking_db :: database
  tables_to_add :: "string list"
  errors_1215 :: "error_1215 list"
  operations :: "operation list"
  good_tables :: "string set"

text \<open>
  The \<^verbatim>\<open>for\<close> loop runs over \<^verbatim>\<open>tables_to_add\<close> itself, the list that its body removes
  names from. A list iterator keeps an index into the list and stops when the index reaches
  the current length: \<open>i\<close> is that index, and a removal shifts the rest of the list under
  it.
\<close>

function adds_sweep :: "database \<Rightarrow> nat \<Rightarrow> adds_state \<Rightarrow> adds_state outcome" where
  "adds_sweep db_to i s =
     (if i < length (tables_to_add s) then
        let new_table_name = tables_to_add s ! i in
        case map_of (tables db_to) new_table_name of
          None \<Rightarrow> Raised KeyError
        | Some new_table \<Rightarrow>
            if unfulfilled_fks (tracking_db s) new_table = [] then
              adds_sweep db_to (Suc i)
                (s\<lparr>tables_to_add := remove1 new_table_name (tables_to_add s),
                   operations := operations s @ [Create_Table new_table],
                   tracking_db := add_table new_table (tracking_db s)\<rparr>)
            else if new_table_name \<in> good_tables s then adds_sweep db_to (Suc i) s
            else if unfulfilled_fks db_to new_table = [] then
              adds_sweep db_to (Suc i) (s\<lparr>good_tables := insert new_table_name (good_tables s)\<rparr>)
            else
              adds_sweep db_to (Suc i)
                (s\<lparr>tables_to_add := remove1 new_table_name (tables_to_add s),
                   errors_1215 := errors_1215 s
                     @ map (\<lambda>error. fst (snd error)) (unfulfilled_fks db_to new_table)\<rparr>)
      else Returned s)"
  by pat_completeness auto
termination
  by (relation "measure (\<lambda>(db_to, i, s). length (tables_to_add s) - i)")
     (auto simp: length_remove1)

declare adds_sweep.simps [simp del]

lemma adds_sweep_length:
  "adds_sweep db_to i s = Returned s' \<Longrightarrow> length (tables_to_add s') \<le> length (tables_to_add s)"
proof (induction db_to i s rule: adds_sweep.induct)
  case (1 db_to i s)
  show ?case
  proof (cases "i < length (tables_to_add s)")
    case False
    with "1.prems" show ?thesis by (simp add: adds_sweep.simps [of db_to i s])
  next
    case True
    then obtain t where t: "map_of (tables db_to) (tables_to_add s ! i) = Some t"
      using "1.prems"
      by (cases "map_of (tables db_to) (tables_to_add s ! i)")
         (auto simp: adds_sweep.simps [of db_to i s])
    from True t "1.prems" "1.IH" [OF True refl t] show ?thesis
      by (auto simp: adds_sweep.simps [of db_to i s] Let_def length_remove1 split: if_splits)
  qed
qed

text \<open>
  The \<^verbatim>\<open>while\<close> loop: another sweep as long as names are pending and the last sweep
  changed their number.
\<close>

function adds_loop :: "database \<Rightarrow> nat \<Rightarrow> adds_state \<Rightarrow> adds_state outcome" where
  "adds_loop db_to last_number_to_add s =
     (if tables_to_add s \<noteq> [] \<and> length (tables_to_add s) \<noteq> last_number_to_add then
        case adds_sweep db_to 0 s of
          Raised e \<Rightarrow> Raised e
        | Returned s' \<Rightarrow> adds_loop db_to (length (tables_to_add s)) s'
      else Returned s)"
  by pat_completeness auto
termination
  by (relation "measure (\<lambda>(db_to, last, s).
        2 * length (tables_to_add s) + (if length (tables_to_add s) = last then 0 else 1))")
     (auto dest: adds_sweep_length)

declare adds_loop.simps [simp del]

definition process_adds :: "database \<Rightarrow> database \<Rightarrow> string list \<Rightarrow> adds_state outcome" where
  "process_adds db_to tracking pending =
     adds_loop db_to 0 \<lparr> tracking_db = tracking, tables_to_add = pending,
       errors_1215 = [], operations = [], good_tables = {} \<rparr>"

subsection \<open>\<^verbatim>\<open>_process_updates\<close>\<close>

text \<open>
  \<^verbatim>\<open>operations\<close> is the dictionary \<^verbatim>\<open>{'fks': [], 'kitchen_sink': []}\<close>, and the body
  calls \<^verbatim>\<open>operations.extend\<close> on it: a dictionary has no such attribute, so the call
  raises \<^verbatim>\<open>AttributeError\<close> as soon as a diff holds an entry \<^verbatim>\<open>'fks'\<close> or
  \<^verbatim>\<open>'kitchen_sink'\<close>, before anything is applied. The entry \<^verbatim>\<open>'removed_fks'\<close> is not
  read. The tracking database is an argument that the body never uses. What is returned is
  the pair of the lists under \<^verbatim>\<open>'fks'\<close> and \<^verbatim>\<open>'kitchen_sink'\<close>.
\<close>

fun process_updates ::
  "database \<Rightarrow> database option \<Rightarrow> string list \<Rightarrow> (operation list \<times> operation list) outcome" where
  "process_updates db_to db_from [] = Returned ([], [])"
| "process_updates db_to db_from (update_table_name # rest) =
     obind (od_get update_table_name (tables db_to)) (\<lambda>target_table.
     obind (case db_from of None \<Rightarrow> Raised AttributeError
            | Some d \<Rightarrow> od_get update_table_name (tables d)) (\<lambda>source_table.
     obind (to source_table target_table True) (\<lambda>more_operations.
       case more_operations of
         Flat _ \<Rightarrow> process_updates db_to db_from rest
       | Split diff \<Rightarrow>
           if fks diff \<noteq> None then Raised AttributeError
           else if kitchen_sink diff \<noteq> None then Raised AttributeError
           else process_updates db_to db_from rest)))"

subsection \<open>\<^verbatim>\<open>_process\<close>\<close>

text \<open>
  After the second add pass the variable \<^verbatim>\<open>operations\<close> may hold \<^verbatim>\<open>None\<close>
  (\<^verbatim>\<open>operations = operations.extend(more_operations)\<close> assigns what \<^verbatim>\<open>extend\<close> returns),
  so from there on it is an optional list, and \<^verbatim>\<open>append\<close> or \<^verbatim>\<open>extend\<close> on \<^verbatim>\<open>None\<close>
  raises \<^verbatim>\<open>AttributeError\<close>.
\<close>

fun strip_constraints :: "constraint list \<Rightarrow> table \<Rightarrow> table outcome" where
  \<comment> \<open>\<^verbatim>\<open>new_table_copy.remove_constraint\<close> for each unfulfilled foreign key\<close>
  "strip_constraints [] t = Returned t"
| "strip_constraints (c # cs) t =
     (case remove_constraint (Obj c) t of
        (Raised e, _) \<Rightarrow> Raised e
      | (Returned _, t') \<Rightarrow> strip_constraints cs t')"

fun break_cycles :: "database \<Rightarrow> database \<Rightarrow> string list \<Rightarrow>
    operation list option \<times> operation list \<Rightarrow> (operation list option \<times> operation list) outcome" where
  \<comment> \<open>the loop over the tables still pending; the tracking database is only read\<close>
  "break_cycles db_to tracking [] acc = Returned acc"
| "break_cycles db_to tracking (table_to_add # rest) (ops, fk_operations) =
     obind (od_get table_to_add (tables db_to)) (\<lambda>new_table.
       let bad_constraints = map snd (od_values (unfulfilled_fks tracking new_table));
           create_fks = \<lparr> alter_name = table_to_add,
                          alter_operations = map Add_Constraint bad_constraints \<rparr>
       in obind (strip_constraints bad_constraints new_table) (\<lambda>new_table_copy.
            case ops of
              None \<Rightarrow> Raised AttributeError
            | Some ops' \<Rightarrow>
                break_cycles db_to tracking rest
                  (Some (ops' @ [Create_Table new_table_copy]),
                   fk_operations @ [Alter_Table create_fks])))"

fun remove_tables :: "string list \<Rightarrow> operation list option \<times> database \<Rightarrow>
    (operation list option \<times> database) outcome" where
  "remove_tables [] acc = Returned acc"
| "remove_tables (table_to_remove # rest) (ops, tracking) =
     (case ops of
        None \<Rightarrow> Raised AttributeError
      | Some ops' \<Rightarrow>
          remove_tables rest
            (Some (ops' @ [Remove_Table table_to_remove]), remove_table table_to_remove tracking))"

type_synonym plan = "error_1215 list \<times> operation list option"

definition finish :: "database \<Rightarrow> database \<Rightarrow> string list \<Rightarrow> string list \<Rightarrow>
    error_1215 list \<Rightarrow> operation list option \<Rightarrow> operation list \<Rightarrow> plan outcome" where
  \<comment> \<open>from the cycle break to the end: new tables without the foreign keys that cannot be
      added yet, the drops, then the deferred foreign keys\<close>
  "finish db_to tracking pending tables_to_remove errs ops fk_operations =
     obind (break_cycles db_to tracking pending (ops, fk_operations)) (\<lambda>(ops1, fk_operations1).
     obind (remove_tables tables_to_remove (ops1, tracking)) (\<lambda>(ops2, tracking2).
       if fk_operations1 \<noteq> [] then
         (case ops2 of None \<Rightarrow> Raised AttributeError
          | Some ops' \<Rightarrow> Returned (errs, Some (ops' @ fk_operations1)))
       else Returned (errs, ops2)))"

definition plan_from :: "database \<Rightarrow> database option \<Rightarrow> plan outcome" where
  \<comment> \<open>\<^verbatim>\<open>_process\<close> after the check of the target on its own\<close>
  "plan_from db_to db_from =
     (let tracking = (case db_from of Some d \<Rightarrow> d | None \<Rightarrow> empty_database);
          db_from_tables = (case db_from of Some d \<Rightarrow> tables d | None \<Rightarrow> [])
      in case differences db_from_tables (tables db_to) of
        (pending, tables_to_remove, tables_to_update) \<Rightarrow>
      obind (process_adds db_to tracking pending) (\<lambda>s1.
        if errors_1215 s1 \<noteq> [] then Returned (errors_1215 s1, Some (operations s1))
        else
          obind (process_updates db_to db_from tables_to_update) (\<lambda>(update_fks, update_kitchen_sink).
            let ops = operations s1 @ update_kitchen_sink;
                fk_operations = update_fks
            in if tables_to_add s1 \<noteq> [] then
                 obind (process_adds db_to (tracking_db s1) (tables_to_add s1)) (\<lambda>s2.
                   let ops' = (if operations s2 \<noteq> [] then None else Some ops) in
                   if errors_1215 s2 \<noteq> [] then
                     (if fk_operations \<noteq> [] \<and> ops' = None then Raised AttributeError
                      else Raised NameError)
                   else finish db_to (tracking_db s2) (tables_to_add s2) tables_to_remove
                          (errors_1215 s2) ops' fk_operations)
               else finish db_to (tracking_db s1) (tables_to_add s1) tables_to_remove
                      (errors_1215 s1) (Some ops) fk_operations)))"

text \<open>
  \<^verbatim>\<open>_process\<close>: with a database to migrate from, the target is first planned on its own
  (\<^verbatim>\<open>mygration(self.db_to)\<close>), and its 1215 errors end the planning with no operation.
  The test \<^verbatim>\<open>if self.db_from\<close> is read as the test that a database was given: the class
  \<^verbatim>\<open>database\<close> is not in the sources at hand, and nothing there makes an empty database
  falsy.
\<close>

fun process :: "database \<Rightarrow> database option \<Rightarrow> plan outcome" where
  "process db_to None = plan_from db_to None"
| "process db_to (Some db_from) =
     obind (plan_from db_to None) (\<lambda>(check_errors, _).
       if check_errors \<noteq> [] then Returned (check_errors, Some [])
       else plan_from db_to (Some db_from))"

definition mygration :: "database \<Rightarrow> database option \<Rightarrow> plan outcome" where
  \<comment> \<open>\<^verbatim>\<open>mygration(db_to, db_from)\<close>: the pair \<^verbatim>\<open>[errors_1215, operations]\<close> of the new object\<close>
  "mygration db_to db_from = process db_to db_from"

section \<open>Sequences of key calls\<close>







section \<open>Pending tables that cannot be created yet\<close>

definition blocked :: "database \<Rightarrow> database \<Rightarrow> string \<Rightarrow> bool" where
  \<comment> \<open>the table of that name in the target has foreign keys that the tracking schema does
      not fulfil and that the target does\<close>
  "blocked db_to tracking n =
     (case map_of (tables db_to) n of
        None \<Rightarrow> False
      | Some t \<Rightarrow> unfulfilled_fks tracking t \<noteq> [] \<and> unfulfilled_fks db_to t = [])"

definition all_blocked :: "database \<Rightarrow> adds_state \<Rightarrow> bool" where
  "all_blocked db_to s = list_all (blocked db_to (tracking_db s)) (tables_to_add s)"

definition good_sound :: "database \<Rightarrow> adds_state \<Rightarrow> bool" where
  \<comment> \<open>\<^verbatim>\<open>good_tables\<close> holds only names whose foreign keys the target fulfils\<close>
  "good_sound db_to s =
     (\<forall>n \<in> good_tables s. \<forall>t. map_of (tables db_to) n = Some t \<longrightarrow> unfulfilled_fks db_to t = [])"

section \<open>Foreign-key safety of a plan\<close>

text \<open>
  Applying the operations of a plan to a schema, the foreign keys each operation adds, and
  what it means for such a key to be satisfiable in a schema.
\<close>

fun apply_operations :: "operation list \<Rightarrow> database \<Rightarrow> database outcome" where
  "apply_operations [] db = Returned db"
| "apply_operations (x # xs) db = obind (apply_operation x db) (apply_operations xs)"

fun added_by_sub :: "sub_operation \<Rightarrow> constraint list" where
  "added_by_sub (Add_Constraint c) = [c]"
| "added_by_sub (Change_Constraint c) = [c]"
| "added_by_sub _ = []"

fun added_fks :: "operation \<Rightarrow> (string \<times> constraint) list" where
  \<comment> \<open>the foreign keys an operation adds, each with the name of its table\<close>
  "added_fks (Create_Table t) = map (\<lambda>c. (name t, c)) (od_values (constraints t))"
| "added_fks (Remove_Table n) = []"
| "added_fks (Alter_Table a) =
     map (\<lambda>c. (alter_name a, c)) (concat (map added_by_sub (alter_operations a)))"

definition fk_satisfied :: "database \<Rightarrow> string \<times> constraint \<Rightarrow> bool" where
  \<comment> \<open>the foreign key is a constraint of its table in the schema, and the check of
      \<^verbatim>\<open>unfulfilled_fks\<close> finds no error for it there\<close>
  "fk_satisfied db = (\<lambda>(n, c).
     case map_of (tables db) n of
       None \<Rightarrow> False
     | Some t \<Rightarrow> map_of (constraints t) (fk_name c) = Some c \<and> find_1215 db t c = None)"

definition fk_safe_prefix :: "database \<Rightarrow> operation list \<Rightarrow> bool" where
  "fk_safe_prefix db0 ops =
     (case apply_operations ops db0 of
        Raised _ \<Rightarrow> False
      | Returned db \<Rightarrow> list_all (fk_satisfied db) (concat (map added_fks ops)))"

definition fk_safe :: "database \<Rightarrow> operation list \<Rightarrow> bool" where
  "fk_safe db0 ops = list_all (\<lambda>k. fk_safe_prefix db0 (take k ops)) [0..<Suc (length ops)]"

definition keyed_by :: "('v \<Rightarrow> string) \<Rightarrow> (string, 'v) odict \<Rightarrow> bool" where
  \<comment> \<open>an ordered dictionary of named objects: one entry per name, under that name\<close>
  "keyed_by f d = (distinct (od_keys d) \<and> list_all (\<lambda>(k, v). f v = k) d)"

definition wf_table :: "table \<Rightarrow> bool" where
  "wf_table t = (keyed_by col_name (columns t) \<and> keyed_by idx_name (indexes t)
     \<and> keyed_by fk_name (constraints t))"

definition wf_database :: "database \<Rightarrow> bool" where
  "wf_database db = (keyed_by name (tables db) \<and> list_all wf_table (od_values (tables db)))"

definition faithful_rendering :: "table \<Rightarrow> table \<Rightarrow> bool" where
  \<comment> \<open>equal renderings of a column, or of a key, of the two tables come from equal types,
      and from equal column lists\<close>
  "faithful_rendering u t =
     (list_all (\<lambda>(k, a). case map_of (columns t) k of None \<Rightarrow> True
                  | Some b \<Rightarrow> str_column a = str_column b \<longrightarrow> compatible a b) (columns u)
      \<and> list_all (\<lambda>(k, a). case map_of (indexes t) k of None \<Rightarrow> True
                  | Some b \<Rightarrow> str_index a = str_index b \<longrightarrow> idx_columns a = idx_columns b)
           (indexes u))"

definition renderings_faithful :: "database \<Rightarrow> database \<Rightarrow> bool" where
  "renderings_faithful db_from db_to =
     list_all (\<lambda>(n, u). case map_of (tables db_to) n of None \<Rightarrow> True
                 | Some t \<Rightarrow> faithful_rendering u t) (tables db_from)"

definition accepted :: "database \<Rightarrow> database option \<Rightarrow> bool" where
  "accepted db_to db_from =
     (wf_database db_to
      \<and> (case db_from of None \<Rightarrow> True
          | Some d \<Rightarrow> wf_database d \<and> renderings_faithful d db_to))"



definition same_columns :: "table \<Rightarrow> table \<Rightarrow> bool" where
  "same_columns t u = (\<forall>k. rel_option compatible (map_of (columns t) k) (map_of (columns u) k))"

definition same_indexes :: "table \<Rightarrow> table \<Rightarrow> bool" where
  "same_indexes t u = (set (map idx_columns (od_values (indexes t)))
     = set (map idx_columns (od_values (indexes u))))"

definition same_shape :: "table \<Rightarrow> table \<Rightarrow> bool" where
  "same_shape t u = (same_columns t u \<and> same_indexes t u)"

definition keeps_constraints :: "table \<Rightarrow> table \<Rightarrow> bool" where
  "keeps_constraints t u = (\<forall>k c. map_of (constraints t) k = Some c \<longrightarrow> map_of (constraints u) k = Some c)"

definition db_extends :: "database \<Rightarrow> database \<Rightarrow> bool" where
  "db_extends db db' = (\<forall>n t. map_of (tables db) n = Some t \<longrightarrow>
      (\<exists>u. map_of (tables db') n = Some u \<and> same_shape t u \<and> keeps_constraints t u))"

definition covers :: "database \<Rightarrow> database \<Rightarrow> bool" where
  "covers db db' = (\<forall>n t. map_of (tables db) n = Some t \<longrightarrow>
      (\<exists>u. map_of (tables db') n = Some u \<and> same_shape t u))"

text \<open>
  The state that a run of operations reaches, with every prefix of the run safe; the
  invariant of the add pass; a target whose foreign keys all reference tables of the
  target; and the pieces of the cycle break: the foreign keys of a table that the tracking
  schema does not fulfil, the table without them, and the operation that restores them.
\<close>

definition safe_to :: "database \<Rightarrow> operation list \<Rightarrow> database \<Rightarrow> bool" where
  "safe_to db0 ops db = (apply_operations ops db0 = Returned db \<and> fk_safe db0 ops)"

definition adds_inv :: "database \<Rightarrow> database \<Rightarrow> string list \<Rightarrow> adds_state \<Rightarrow> bool" where
  "adds_inv db_to db0 pending0 s =
     (safe_to db0 (operations s) (tracking_db s)
      \<and> distinct (tables_to_add s)
      \<and> (\<forall>n \<in> set (tables_to_add s). \<not> od_in n (tables (tracking_db s)))
      \<and> db_extends db0 (tracking_db s)
      \<and> (errors_1215 s = [] \<longrightarrow>
           (\<forall>n \<in> set pending0. n \<in> set (tables_to_add s)
              \<or> (\<exists>t. map_of (tables db_to) n = Some t
                    \<and> map_of (tables (tracking_db s)) n = Some t
                    \<and> (\<forall>c \<in> set (od_values (constraints t)).
                          find_1215 (tracking_db s) t c = None))))
      \<and> (\<forall>(m, c) \<in> set (concat (map added_fks (operations s))).
            \<exists>t. map_of (tables db_to) m = Some t \<and> c \<in> set (od_values (constraints t)))
      \<and> (\<forall>n. od_in n (tables (tracking_db s)) \<longrightarrow> od_in n (tables db0) \<or> n \<in> set pending0)
      \<and> set (tables_to_add s) \<subseteq> set pending0)"

definition refs_closed :: "database \<Rightarrow> bool" where
  "refs_closed db = (\<forall>t \<in> set (od_values (tables db)). \<forall>c \<in> set (od_values (constraints t)).
      od_in (fk_foreign_table c) (tables db))"

definition bad_constraints :: "database \<Rightarrow> table \<Rightarrow> constraint list" where
  "bad_constraints db t = map snd (od_values (unfulfilled_fks db t))"

definition stripped :: "database \<Rightarrow> table \<Rightarrow> table" where
  "stripped db t = t\<lparr>constraints :=
     filter (\<lambda>(k, c). k \<notin> fk_name ` set (bad_constraints db t)) (constraints t)\<rparr>"

definition restore :: "database \<Rightarrow> table \<Rightarrow> operation" where
  "restore db t = Alter_Table \<lparr> alter_name = name t,
     alter_operations = map Add_Constraint (bad_constraints db t) \<rparr>"

section \<open>Example schemas\<close>

definition int_column :: "string \<Rightarrow> column" where
  "int_column n = \<lparr> col_name = n, col_type = ''INT'', col_length = Some 10, col_unsigned = True,
     col_null = False, col_default = None, col_auto_increment = False,
     col_character_set = None, col_collate = None,
     col_sql = ''`'' @ n @ ''` INT(10) UNSIGNED NOT NULL'' \<rparr>"

definition varchar_column :: "string \<Rightarrow> column" where
  "varchar_column n = \<lparr> col_name = n, col_type = ''VARCHAR'', col_length = Some 255,
     col_unsigned = False, col_null = False, col_default = Some [], col_auto_increment = False,
     col_character_set = None, col_collate = None,
     col_sql = ''`'' @ n @ ''` VARCHAR(255) NOT NULL DEFAULT '' @ [CHR 0x27, CHR 0x27] \<rparr>"

definition text_column :: "string \<Rightarrow> column" where
  "text_column n = \<lparr> col_name = n, col_type = ''TEXT'', col_length = None, col_unsigned = False,
     col_null = True, col_default = None, col_auto_increment = False,
     col_character_set = None, col_collate = None, col_sql = ''`'' @ n @ ''` TEXT'' \<rparr>"

definition key_on :: "string \<Rightarrow> string list \<Rightarrow> index" where
  "key_on n cs = \<lparr> idx_name = n, idx_columns = cs, idx_type = Regular \<rparr>"

definition primary_key :: index where
  "primary_key = \<lparr> idx_name = ''PRIMARY'', idx_columns = [''id''], idx_type = Primary \<rparr>"

definition foreign_key :: "string \<Rightarrow> string \<Rightarrow> string \<Rightarrow> fk_action \<Rightarrow> constraint" where
  \<comment> \<open>a foreign key from one local column to the column \<^verbatim>\<open>id\<close> of another table\<close>
  "foreign_key n local foreign on_delete = \<lparr> fk_name = n, fk_local_columns = [local],
     fk_foreign_table = foreign, fk_foreign_columns = [''id''],
     fk_on_delete = on_delete, fk_on_update = Cascade \<rparr>"

definition make_table ::
  "string \<Rightarrow> column list \<Rightarrow> index list \<Rightarrow> constraint list \<Rightarrow> table" where
  "make_table n cs ks fs = (empty_table n)\<lparr>
     columns := map (\<lambda>c. (col_name c, c)) cs,
     indexes := map (\<lambda>k. (idx_name k, k)) ks,
     constraints := map (\<lambda>f. (fk_name f, f)) fs \<rparr>"

definition make_database :: "table list \<Rightarrow> database" where
  "make_database ts = \<lparr> tables = map (\<lambda>t. (name t, t)) ts \<rparr>"

definition plain :: "string \<Rightarrow> table" where
  \<comment> \<open>a table with a primary key and no foreign key\<close>
  "plain n = make_table n [int_column ''id'', varchar_column ''name''] [primary_key] []"

definition three_tables :: database where
  "three_tables = make_database [plain ''a'', plain ''b'', plain ''c'']"

text \<open>The schemas of \<^verbatim>\<open>test_simple_add_and_modify\<close>, without the new table.\<close>

definition tasks_keys :: "index list" where
  "tasks_keys = [primary_key, key_on ''account_id_tasks'' [''account_id''],
     key_on ''repeating_task_id_tasks'' [''repeating_task_id'']]"

definition tasks_v1 :: table where
  "tasks_v1 = make_table ''tasks''
     [int_column ''id'', int_column ''account_id'', int_column ''repeating_task_id'',
      varchar_column ''name'']
     tasks_keys [foreign_key ''account_id_tasks_fk'' ''account_id'' ''accounts'' Cascade]"

definition tasks_v2 :: table where
  "tasks_v2 = make_table ''tasks''
     [int_column ''id'', int_column ''account_id'', int_column ''repeating_task_id'',
      varchar_column ''name'', text_column ''subject'']
     tasks_keys [foreign_key ''account_id_tasks_fk'' ''account_id'' ''accounts'' Cascade]"

text \<open>The schemas of \<^verbatim>\<open>test_all_constraint_adjustments\<close>.\<close>

definition tasks_columns :: "column list" where
  "tasks_columns = [int_column ''id'', int_column ''account_id'', int_column ''task_id'',
     int_column ''repeating_task_id'', varchar_column ''name'']"

definition tasks_fk_v1 :: table where
  "tasks_fk_v1 = make_table ''tasks'' tasks_columns (tasks_keys @ [key_on ''task_id'' [''task_id'']])
     [foreign_key ''account_id_tasks_fk'' ''account_id'' ''accounts'' Cascade,
      foreign_key ''task_id_fk'' ''task_id'' ''tasks'' Cascade]"

definition tasks_fk_v2 :: table where
  "tasks_fk_v2 = make_table ''tasks'' tasks_columns (tasks_keys @ [key_on ''task_id'' [''task_id'']])
     [foreign_key ''account_id_tasks_fk'' ''account_id'' ''accounts'' Restrict,
      foreign_key ''task_id_2_fk'' ''task_id'' ''tasks'' Cascade]"

text \<open>
  The schema of \<^verbatim>\<open>test_add_conflicting_separates_fks\<close>: two tables that reference each
  other.
\<close>

definition tasks_cyclic :: table where
  "tasks_cyclic = make_table ''tasks''
     [int_column ''id'', int_column ''account_id'', int_column ''repeating_task_id'',
      varchar_column ''name'']
     tasks_keys
     [foreign_key ''account_id_tasks_fk'' ''account_id'' ''accounts'' Cascade,
      foreign_key ''repeating_task_id_tasks_fk'' ''repeating_task_id'' ''repeating_tasks'' Cascade]"

definition repeating_tasks :: table where
  "repeating_tasks = make_table ''repeating_tasks''
     [int_column ''id'', int_column ''account_id'', int_column ''task_id'', varchar_column ''name'']
     [primary_key, key_on ''account_id_rts'' [''account_id''], key_on ''task_id_rts'' [''task_id'']]
     [foreign_key ''account_id_tasks_fk'' ''account_id'' ''accounts'' Cascade,
      foreign_key ''task_id_rts'' ''task_id'' ''tasks'' Cascade]"



text \<open>
  A migration in which a new table references a column that the update of an existing table
  adds.
\<close>

definition tasks_ref :: table where
  "tasks_ref = make_table ''tasks'' [int_column ''id'', int_column ''ref_id'']
     [primary_key, key_on ''ref_id'' [''ref_id'']] []"

definition notes_table :: table where
  "notes_table = make_table ''notes'' [int_column ''id'', int_column ''ref_id'']
     [primary_key, key_on ''ref_id'' [''ref_id'']]
     [\<lparr> fk_name = ''ref_id_fk'', fk_local_columns = [''ref_id''], fk_foreign_table = ''tasks'',
        fk_foreign_columns = [''ref_id''], fk_on_delete = Cascade, fk_on_update = Cascade \<rparr>]"

definition unblock_source :: database where
  "unblock_source = make_database [make_table ''tasks'' [int_column ''id''] [primary_key] []]"

definition unblock_target :: database where
  "unblock_target = make_database [tasks_ref, notes_table]"

text \<open>
  A migration with a table to create at once, two tables that reference each other, a table
  that stays and a table to drop, and the plan the planner makes for it.
\<close>

definition target_example :: database where
  "target_example =
     make_database [tasks_cyclic, repeating_tasks, plain ''accounts'', plain ''histories'']"

definition source_example :: database where
  "source_example = make_database [plain ''accounts'', plain ''old_logs'']"

definition plan_example :: "operation list" where
  "plan_example =
     [Create_Table (plain ''histories''),
      Create_Table (make_table ''tasks''
        [int_column ''id'', int_column ''account_id'', int_column ''repeating_task_id'',
         varchar_column ''name'']
        tasks_keys [foreign_key ''account_id_tasks_fk'' ''account_id'' ''accounts'' Cascade]),
      Create_Table (make_table ''repeating_tasks''
        [int_column ''id'', int_column ''account_id'', int_column ''task_id'',
         varchar_column ''name'']
        [primary_key, key_on ''account_id_rts'' [''account_id''],
         key_on ''task_id_rts'' [''task_id'']]
        [foreign_key ''account_id_tasks_fk'' ''account_id'' ''accounts'' Cascade]),
      Remove_Table ''old_logs'',
      Alter_Table \<lparr> alter_name = ''tasks'', alter_operations =
        [Add_Constraint (foreign_key ''repeating_task_id_tasks_fk'' ''repeating_task_id''
           ''repeating_tasks'' Cascade)] \<rparr>,
      Alter_Table \<lparr> alter_name = ''repeating_tasks'', alter_operations =
        [Add_Constraint (foreign_key ''task_id_rts'' ''task_id'' ''tasks'' Cascade)] \<rparr>]"

text \<open>A target whose only foreign key references a table that does not exist.\<close>

definition broken_database :: database where
  "broken_database = make_database [make_table ''tasks''
     [int_column ''id'', int_column ''account_id''] [primary_key]
     [foreign_key ''account_id_fk'' ''account_id'' ''nonexistent'' Cascade]]"

text \<open>
  A table with one indexed column on which \<^verbatim>\<open>column_is_indexed\<close> has been asked once,
  so that \<^verbatim>\<open>_indexed_columns\<close> is built.
\<close>

definition cached_table :: table where
  "cached_table =
     snd (column_is_indexed (Str ''id'')
       (snd (add_key (key_on ''id_key'' [''id''])
         (snd (add_column (int_column ''id'') (PBool False) (empty_table ''tasks''))))))"

definition tasks_without_keys :: table where
  \<comment> \<open>the table before any key is added and before the cache is built\<close>
  "tasks_without_keys =
     snd (add_column (int_column ''id'') (PBool False) (empty_table ''tasks''))"

definition stale_table :: table where
  \<comment> \<open>the table after the cache was built and \<^verbatim>\<open>add_key\<close> was then called\<close>
  "stale_table =
     snd (add_key (key_on ''id_key'' [''id''])
       (snd (column_is_indexed (Str ''id'') tasks_without_keys)))"

text \<open>A table without a column \<^verbatim>\<open>id\<close> and one seed row for it.\<close>

definition people :: table where
  "people = snd (add_column (varchar_column ''name'') (PBool False) (empty_table ''people''))"

definition one_row :: rows where
  "one_row = \<lparr> rows_errors = [], rows_columns = [], num_explicit_columns = 0,
     raw_rows = [[''bob'']] \<rparr>"

section \<open>The schema model: mutations and the index cache\<close>

lemma add_column_after_found:
  "fst (fold (\<lambda>(key, value) (found, new_columns).
             let new_columns = AList.update key value new_columns in
             if key = pos
             then (True, AList.update (col_name column) column new_columns)
             else (found, new_columns)) cols (f, acc)) = (f \<or> pos \<in> set (map fst cols))"
  by (induction cols arbitrary: f acc) (auto simp: Let_def split: prod.splits)

lemma add_column_found_iff:
  "fst (add_column_after column pos cols) = od_in pos cols"
  unfolding add_column_after_def od_in_def od_keys_def
  by (simp add: add_column_after_found)

text \<open>
  C10. When \<^verbatim>\<open>add_column\<close> raises, it raises \<^verbatim>\<open>ValueError\<close>, for one of two reasons
  (a column of that name exists, or the position names a column to go after that does not
  exist), and the table is the one before the call: in particular its columns, names and
  order, are unchanged.
\<close>

theorem add_column_failure_atomic:
  assumes "fst (add_column column pos t) = Raised e"
  shows "e = ValueError
     \<and> (od_in (col_name column) (columns t)
        \<or> (\<exists>p. pos = PStr p \<and> p \<noteq> [] \<and> \<not> od_in p (columns t)))
     \<and> snd (add_column column pos t) = t
     \<and> columns (snd (add_column column pos t)) = columns t"
proof (cases "od_in (col_name column) (columns t)")
  case True
  with assms show ?thesis by (simp add: add_column_def)
next
  case False
  note fresh = this
  show ?thesis
  proof (cases pos)
    case (PBool b)
    with assms fresh show ?thesis by (simp add: add_column_def split: if_splits)
  next
    case (PStr p)
    obtain found nc where r: "add_column_after column p (columns t) = (found, nc)"
      by (cases "add_column_after column p (columns t)")
    have f: "found = od_in p (columns t)"
      using add_column_found_iff [of column p "columns t"] r by simp
    from assms fresh PStr r f show ?thesis
      by (auto simp: add_column_def split: if_splits)
  qed
qed

theorem add_column_failure_atomic_witness:
  "fst (add_column (text_column ''subject'') (PStr ''title'') people) = Raised ValueError
   \<and> columns (snd (add_column (text_column ''subject'') (PStr ''title'') people))
       = [(''name'', varchar_column ''name'')]"
proof -
  have r: "fst (add_column (text_column ''subject'') (PStr ''title'') people) = Raised ValueError"
    by code_simp
  have c: "columns people = [(''name'', varchar_column ''name'')]"
    by code_simp
  from add_column_failure_atomic [OF r] r c show ?thesis by simp
qed

lemma cached_table_eq:
  "cached_table = (empty_table ''tasks'')\<lparr>columns := [(''id'', int_column ''id'')],
     indexes := [(''id_key'', key_on ''id_key'' [''id''])], indexed_columns := Some {''id''}\<rparr>"
  by (simp add: cached_table_def column_is_indexed_def add_key_def add_column_def
      empty_table_def od_in_def od_keys_def od_values_def key_on_def int_column_def Let_def)

text \<open>
  C7. The claim fails on the code for the three key mutations once the cache of indexed
  columns is built. On a table with the key \<^verbatim>\<open>id_key\<close> on its column \<^verbatim>\<open>id\<close> and the
  cache built, \<^verbatim>\<open>remove_key\<close> and \<^verbatim>\<open>change_key\<close> of the existing key and \<^verbatim>\<open>add_key\<close>
  of a key with a new name all meet their precondition, and each raises
  \<^verbatim>\<open>AttributeError\<close>.
\<close>

theorem key_mutation_raises_with_cache:
  "indexed_columns cached_table = Some {''id''}
   \<and> od_in ''id_key'' (indexes cached_table)
   \<and> fst (remove_key (Str ''id_key'') cached_table) = Raised AttributeError
   \<and> fst (change_key (key_on ''id_key'' [''id'']) cached_table) = Raised AttributeError
   \<and> \<not> od_in ''other'' (indexes cached_table)
   \<and> fst (add_key (key_on ''other'' [''id'']) cached_table) = Raised AttributeError"
  by (simp add: cached_table_eq remove_key_def change_key_def add_key_def
      first_column_name_def empty_table_def od_in_def od_keys_def od_values_def key_on_def
      int_column_def Let_def)





text \<open>
  A key mutation that returns leaves the cache unbuilt: one issued once the cache is built
  raises. On a table with the column \<^verbatim>\<open>id\<close> and no key, \<^verbatim>\<open>column_is_indexed('id')\<close>
  answers \<^verbatim>\<open>False\<close> and builds the cache; \<^verbatim>\<open>add_key\<close> of a key on \<^verbatim>\<open>id\<close> then
  stores the key and raises \<^verbatim>\<open>AttributeError\<close>, and the table it leaves answers
  \<^verbatim>\<open>False\<close> for \<^verbatim>\<open>id\<close> from a cache that the raise left behind.
\<close>

lemma stale_cache_after_add_key:
  "fst (column_is_indexed (Str ''id'') tasks_without_keys) = Returned False
   \<and> \<not> od_in ''id_key'' (indexes (snd (column_is_indexed (Str ''id'') tasks_without_keys)))
   \<and> fst (add_key (key_on ''id_key'' [''id''])
            (snd (column_is_indexed (Str ''id'') tasks_without_keys))) = Raised AttributeError
   \<and> od_values (indexes stale_table) = [key_on ''id_key'' [''id'']]
   \<and> od_in ''id'' (columns stale_table)
   \<and> fst (column_is_indexed (Str ''id'') stale_table) = Returned False"
  by (simp add: stale_table_def tasks_without_keys_def column_is_indexed_def add_key_def
      add_column_def first_column_name_def empty_table_def od_in_def od_keys_def od_values_def
      key_on_def int_column_def Let_def)

text \<open>
  C9. The claim fails on the code: a row without a value for \<^verbatim>\<open>id\<close> is not given the
  table's \<^verbatim>\<open>auto_increment\<close>; \<^verbatim>\<open>add_rows\<close> raises \<^verbatim>\<open>NameError\<close> on it.
\<close>

theorem add_rows_without_id_raises:
  "fst (add_rows one_row people) = Raised NameError"
  by code_simp

section \<open>The planner\<close>

subsection \<open>Planning a database onto itself\<close>

lemma od_get_present:
  "k \<in> set (od_keys d) \<Longrightarrow> \<exists>v. od_get k d = Returned v \<and> map_of d k = Some v"
  unfolding od_get_def od_keys_def
  by (cases "map_of d k") (auto simp: map_of_eq_None_iff)

lemma collect_changed_same:
  "set ks \<subseteq> set (od_keys d) \<Longrightarrow> collect (changed str mk d d) ks = Returned []"
proof (induction ks)
  case Nil
  show ?case by simp
next
  case (Cons k ks)
  then obtain v where "od_get k d = Returned v" using od_get_present [of k d] by auto
  with Cons show ?case by (simp add: changed_def obind_def)
qed

lemma differences_same:
  "differences d d = ([], [], od_keys d)"
  by (simp add: differences_def od_in_def)

lemma to_same: "to t t True = Returned (Split \<lparr> removed_fks = None, kitchen_sink = None, fks = None \<rparr>)"
  by (simp add: to_def differences_same collect_changed_same obind_def if_any_def)

lemma process_updates_same:
  "set ns \<subseteq> set (od_keys (tables db)) \<Longrightarrow> process_updates db (Some db) ns = Returned ([], [])"
proof (induction ns)
  case Nil
  show ?case by simp
next
  case (Cons n ns)
  then obtain t where "od_get n (tables db) = Returned t"
    using od_get_present [of n "tables db"] by auto
  with Cons show ?case by (simp add: obind_def to_same)
qed

lemma process_adds_nothing_pending:
  "process_adds db_to tracking [] = Returned \<lparr> tracking_db = tracking, tables_to_add = [],
       errors_1215 = [], operations = [], good_tables = {} \<rparr>"
  by (simp add: process_adds_def adds_loop.simps)

lemma plan_from_same: "plan_from db (Some db) = Returned ([], Some [])"
  by (simp add: plan_from_def differences_same process_adds_nothing_pending obind_def
      process_updates_same finish_def)

text \<open>
  C2, as the code has it. When the plan of a database on its own reports no 1215 error, the
  plan from that database to itself has no operation and no error.
\<close>

theorem identity_plan:
  assumes "mygration db None = Returned ([], ops)"
  shows "mygration db (Some db) = Returned ([], Some [])"
  using assms by (simp add: mygration_def obind_def plan_from_same)

theorem identity_plan_witness:
  "mygration three_tables None =
       Returned ([], Some [Create_Table (plain ''a''), Create_Table (plain ''c''),
                           Create_Table (plain ''b'')])
   \<and> mygration three_tables (Some three_tables) = Returned ([], Some [])"
proof -
  have a: "mygration three_tables None =
       Returned ([], Some [Create_Table (plain ''a''), Create_Table (plain ''c''),
                           Create_Table (plain ''b'')])"
    by code_simp
  from identity_plan [OF a] a show ?thesis by simp
qed

text \<open>
  C2 as stated fails: the target is first planned on its own, and a database with a foreign
  key to a table that does not exist gets that error back from the plan onto itself.
\<close>

theorem identity_fails_on_broken_target:
  "mygration broken_database (Some broken_database) =
     Returned ([(''account_id_fk'', Unknown_Table ''nonexistent'')], Some [])"
  by code_simp

subsection \<open>The add passes\<close>

lemma adds_sweep_blocked:
  "all_blocked db_to s \<Longrightarrow> \<exists>g. adds_sweep db_to i s = Returned (s\<lparr>good_tables := g\<rparr>)"
proof (induction db_to i s rule: adds_sweep.induct)
  case (1 db_to i s)
  show ?case
  proof (cases "i < length (tables_to_add s)")
    case False
    then have "adds_sweep db_to i s = Returned (s\<lparr>good_tables := good_tables s\<rparr>)"
      by (simp add: adds_sweep.simps [of db_to i s])
    then show ?thesis by blast
  next
    case True
    then have "blocked db_to (tracking_db s) (tables_to_add s ! i)"
      using "1.prems" by (simp add: all_blocked_def list_all_length)
    then obtain t where t: "map_of (tables db_to) (tables_to_add s ! i) = Some t"
      and bad: "unfulfilled_fks (tracking_db s) t \<noteq> []" and ok: "unfulfilled_fks db_to t = []"
      by (auto simp: blocked_def split: option.splits)
    show ?thesis
    proof (cases "tables_to_add s ! i \<in> good_tables s")
      case True
      from "1.IH"(2) [OF \<open>i < length (tables_to_add s)\<close> refl t bad True "1.prems"]
      obtain g where "adds_sweep db_to (Suc i) s = Returned (s\<lparr>good_tables := g\<rparr>)" by blast
      with \<open>i < length (tables_to_add s)\<close> t bad True
      have "adds_sweep db_to i s = Returned (s\<lparr>good_tables := g\<rparr>)"
        by (simp add: adds_sweep.simps [of db_to i s])
      then show ?thesis by blast
    next
      case False
      have b: "all_blocked db_to (s\<lparr>good_tables := insert (tables_to_add s ! i) (good_tables s)\<rparr>)"
        using "1.prems" by (simp add: all_blocked_def)
      from "1.IH"(3) [OF \<open>i < length (tables_to_add s)\<close> refl t bad False ok b]
      obtain g where "adds_sweep db_to (Suc i)
          (s\<lparr>good_tables := insert (tables_to_add s ! i) (good_tables s)\<rparr>)
          = Returned (s\<lparr>good_tables := g\<rparr>)" by auto
      with \<open>i < length (tables_to_add s)\<close> t bad False ok
      have "adds_sweep db_to i s = Returned (s\<lparr>good_tables := g\<rparr>)"
        by (simp add: adds_sweep.simps [of db_to i s])
      then show ?thesis by blast
    qed
  qed
qed

lemma process_adds_blocked:
  assumes "list_all (blocked db_to tracking) pending"
  shows "\<exists>g. process_adds db_to tracking pending = Returned \<lparr> tracking_db = tracking,
     tables_to_add = pending, errors_1215 = [], operations = [], good_tables = g \<rparr>"
proof (cases "pending = []")
  case True
  then show ?thesis by (simp add: process_adds_def adds_loop.simps)
next
  case False
  let ?s = "\<lparr> tracking_db = tracking, tables_to_add = pending,
       errors_1215 = [], operations = [], good_tables = {} \<rparr>"
  have "all_blocked db_to ?s" using assms by (simp add: all_blocked_def)
  then obtain g where g: "adds_sweep db_to 0 ?s = Returned (?s\<lparr>good_tables := g\<rparr>)"
    using adds_sweep_blocked by blast
  have "adds_loop db_to 0 ?s = adds_loop db_to (length pending) (?s\<lparr>good_tables := g\<rparr>)"
    using False g by (subst adds_loop.simps) simp
  also have "\<dots> = Returned (?s\<lparr>good_tables := g\<rparr>)"
    by (subst adds_loop.simps) simp
  finally show ?thesis by (simp add: process_adds_def)
qed

text \<open>
  A sweep that leaves the number of pending names unchanged found every name from its index
  on blocked.
\<close>

lemma adds_sweep_fixpoint:
  "adds_sweep db_to i s = Returned s' \<Longrightarrow> length (tables_to_add s') = length (tables_to_add s)
   \<Longrightarrow> good_sound db_to s
   \<Longrightarrow> tables_to_add s' = tables_to_add s \<and> tracking_db s' = tracking_db s
       \<and> good_sound db_to s'
       \<and> (\<forall>j. i \<le> j \<and> j < length (tables_to_add s)
             \<longrightarrow> blocked db_to (tracking_db s) (tables_to_add s ! j))"
proof (induction db_to i s rule: adds_sweep.induct)
  case (1 db_to i s)
  show ?case
  proof (cases "i < length (tables_to_add s)")
    case False
    with "1.prems" show ?thesis by (auto simp: adds_sweep.simps [of db_to i s])
  next
    case True
    note i = this
    let ?n = "tables_to_add s ! i"
    have mem: "?n \<in> set (tables_to_add s)" using i by simp
    obtain t where t: "map_of (tables db_to) ?n = Some t"
      using "1.prems"(1) i
      by (cases "map_of (tables db_to) ?n") (auto simp: adds_sweep.simps [of db_to i s])
    have shrink: "\<And>s1. tables_to_add s1 = remove1 ?n (tables_to_add s)
        \<Longrightarrow> adds_sweep db_to (Suc i) s1 \<noteq> Returned s'"
    proof
      fix s1 assume a: "tables_to_add s1 = remove1 ?n (tables_to_add s)"
        and b: "adds_sweep db_to (Suc i) s1 = Returned s'"
      from adds_sweep_length [OF b] a mem "1.prems"(2) i show False
        by (simp add: length_remove1)
    qed
    show ?thesis
    proof (cases "unfulfilled_fks (tracking_db s) t = []")
      case True
      with "1.prems"(1) i t shrink show ?thesis
        by (simp add: adds_sweep.simps [of db_to i s])
    next
      case False
      note bad = this
      show ?thesis
      proof (cases "?n \<in> good_tables s")
        case True
        then have run: "adds_sweep db_to (Suc i) s = Returned s'"
          using "1.prems"(1) i t bad by (simp add: adds_sweep.simps [of db_to i s])
        from "1.IH"(2) [OF i refl t bad True run "1.prems"(2,3)]
        have ih: "tables_to_add s' = tables_to_add s \<and> tracking_db s' = tracking_db s
            \<and> good_sound db_to s'
            \<and> (\<forall>j. Suc i \<le> j \<and> j < length (tables_to_add s)
                 \<longrightarrow> blocked db_to (tracking_db s) (tables_to_add s ! j))" .
        have here: "blocked db_to (tracking_db s) ?n"
          using t bad True "1.prems"(3) by (auto simp: blocked_def good_sound_def)
        show ?thesis
        proof (intro conjI allI impI)
          fix j assume j: "i \<le> j \<and> j < length (tables_to_add s)"
          show "blocked db_to (tracking_db s) (tables_to_add s ! j)"
          proof (cases "j = i")
            case True with here show ?thesis by simp
          next
            case False with j ih show ?thesis by auto
          qed
        qed (use ih in auto)
      next
        case False
        note fresh = this
        show ?thesis
        proof (cases "unfulfilled_fks db_to t = []")
          case False
          with "1.prems"(1) i t bad fresh shrink show ?thesis
            by (simp add: adds_sweep.simps [of db_to i s])
        next
          case True
          let ?s1 = "s\<lparr>good_tables := insert ?n (good_tables s)\<rparr>"
          have run: "adds_sweep db_to (Suc i) ?s1 = Returned s'"
            using "1.prems"(1) i t bad fresh True by (simp add: adds_sweep.simps [of db_to i s])
          have g1: "good_sound db_to ?s1"
            using "1.prems"(3) t True by (auto simp: good_sound_def)
          from "1.IH"(3) [OF i refl t bad fresh True run] "1.prems"(2) g1
          have ih: "tables_to_add s' = tables_to_add s \<and> tracking_db s' = tracking_db s
            \<and> good_sound db_to s'
            \<and> (\<forall>j. Suc i \<le> j \<and> j < length (tables_to_add s)
                 \<longrightarrow> blocked db_to (tracking_db s) (tables_to_add s ! j))" by simp
          have here: "blocked db_to (tracking_db s) ?n"
            using t bad True by (auto simp: blocked_def)
          show ?thesis
          proof (intro conjI allI impI)
            fix j assume j: "i \<le> j \<and> j < length (tables_to_add s)"
            show "blocked db_to (tracking_db s) (tables_to_add s ! j)"
            proof (cases "j = i")
              case True with here show ?thesis by simp
            next
              case False with j ih show ?thesis by auto
            qed
          qed (use ih in auto)
        qed
      qed
    qed
  qed
qed


lemma adds_sweep_invariant:
  assumes "adds_sweep db_to i s = Returned s'" and "Inv s"
    and "\<And>s n t. \<lbrakk>Inv s; n \<in> set (tables_to_add s); map_of (tables db_to) n = Some t;
            unfulfilled_fks (tracking_db s) t = []\<rbrakk>
          \<Longrightarrow> Inv (s\<lparr>tables_to_add := remove1 n (tables_to_add s),
                   operations := operations s @ [Create_Table t],
                   tracking_db := add_table t (tracking_db s)\<rparr>)"
    and "\<And>s n t. \<lbrakk>Inv s; n \<in> set (tables_to_add s); map_of (tables db_to) n = Some t;
            unfulfilled_fks (tracking_db s) t \<noteq> []; unfulfilled_fks db_to t = []\<rbrakk>
          \<Longrightarrow> Inv (s\<lparr>good_tables := insert n (good_tables s)\<rparr>)"
    and "\<And>s n t. \<lbrakk>Inv s; n \<in> set (tables_to_add s); map_of (tables db_to) n = Some t;
            unfulfilled_fks (tracking_db s) t \<noteq> []; unfulfilled_fks db_to t \<noteq> []\<rbrakk>
          \<Longrightarrow> Inv (s\<lparr>tables_to_add := remove1 n (tables_to_add s),
                   errors_1215 := errors_1215 s
                     @ map (\<lambda>error. fst (snd error)) (unfulfilled_fks db_to t)\<rparr>)"
  shows "Inv s'"
  using assms
proof (induction db_to i s arbitrary: s' rule: adds_sweep.induct)
  case (1 db_to i s)
  show ?case
  proof (cases "i < length (tables_to_add s)")
    case False
    with "1.prems"(1,2) show ?thesis by (simp add: adds_sweep.simps [of db_to i s])
  next
    case True
    note i = this
    let ?n = "tables_to_add s ! i"
    have mem: "?n \<in> set (tables_to_add s)" using i by simp
    obtain t where t: "map_of (tables db_to) ?n = Some t"
      using "1.prems"(1) i
      by (cases "map_of (tables db_to) ?n") (auto simp: adds_sweep.simps [of db_to i s])
    show ?thesis
    proof (cases "unfulfilled_fks (tracking_db s) t = []")
      case True
      let ?s1 = "s\<lparr>tables_to_add := remove1 ?n (tables_to_add s),
                   operations := operations s @ [Create_Table t],
                   tracking_db := add_table t (tracking_db s)\<rparr>"
      have run: "adds_sweep db_to (Suc i) ?s1 = Returned s'"
        using "1.prems"(1) i t True by (simp add: adds_sweep.simps [of db_to i s])
      have inv: "Inv ?s1" using "1.prems"(3) [OF "1.prems"(2) mem t True] .
      show ?thesis
        by (rule "1.IH"(1) [OF i refl t True run inv "1.prems"(3,4,5)])
    next
      case False
      note bad = this
      show ?thesis
      proof (cases "?n \<in> good_tables s")
        case True
        have run: "adds_sweep db_to (Suc i) s = Returned s'"
          using "1.prems"(1) i t bad True by (simp add: adds_sweep.simps [of db_to i s])
        show ?thesis
          by (rule "1.IH"(2) [OF i refl t bad True run "1.prems"(2,3,4,5)])
      next
        case False
        note fresh = this
        show ?thesis
        proof (cases "unfulfilled_fks db_to t = []")
          case True
          let ?s1 = "s\<lparr>good_tables := insert ?n (good_tables s)\<rparr>"
          have run: "adds_sweep db_to (Suc i) ?s1 = Returned s'"
            using "1.prems"(1) i t bad fresh True by (simp add: adds_sweep.simps [of db_to i s])
          have inv: "Inv ?s1" using "1.prems"(4) [OF "1.prems"(2) mem t bad True] .
          show ?thesis
            by (rule "1.IH"(3) [OF i refl t bad fresh True run inv "1.prems"(3,4,5)])
        next
          case False
          let ?s1 = "s\<lparr>tables_to_add := remove1 ?n (tables_to_add s),
                   errors_1215 := errors_1215 s
                     @ map (\<lambda>error. fst (snd error)) (unfulfilled_fks db_to t)\<rparr>"
          have run: "adds_sweep db_to (Suc i) ?s1 = Returned s'"
            using "1.prems"(1) i t bad fresh False by (simp add: adds_sweep.simps [of db_to i s])
          have inv: "Inv ?s1" using "1.prems"(5) [OF "1.prems"(2) mem t bad False] .
          show ?thesis
            by (rule "1.IH"(4) [OF i refl t bad fresh False run inv "1.prems"(3,4,5)])
        qed
      qed
    qed
  qed
qed

lemma adds_loop_invariant:
  assumes "adds_loop db_to prev s = Returned s'" and "Inv s"
    and "\<And>s n t. \<lbrakk>Inv s; n \<in> set (tables_to_add s); map_of (tables db_to) n = Some t;
            unfulfilled_fks (tracking_db s) t = []\<rbrakk>
          \<Longrightarrow> Inv (s\<lparr>tables_to_add := remove1 n (tables_to_add s),
                   operations := operations s @ [Create_Table t],
                   tracking_db := add_table t (tracking_db s)\<rparr>)"
    and "\<And>s n t. \<lbrakk>Inv s; n \<in> set (tables_to_add s); map_of (tables db_to) n = Some t;
            unfulfilled_fks (tracking_db s) t \<noteq> []; unfulfilled_fks db_to t = []\<rbrakk>
          \<Longrightarrow> Inv (s\<lparr>good_tables := insert n (good_tables s)\<rparr>)"
    and "\<And>s n t. \<lbrakk>Inv s; n \<in> set (tables_to_add s); map_of (tables db_to) n = Some t;
            unfulfilled_fks (tracking_db s) t \<noteq> []; unfulfilled_fks db_to t \<noteq> []\<rbrakk>
          \<Longrightarrow> Inv (s\<lparr>tables_to_add := remove1 n (tables_to_add s),
                   errors_1215 := errors_1215 s
                     @ map (\<lambda>error. fst (snd error)) (unfulfilled_fks db_to t)\<rparr>)"
  shows "Inv s'"
  using assms
proof (induction db_to prev s arbitrary: s' rule: adds_loop.induct)
  case (1 db_to prev s)
  show ?case
  proof (cases "tables_to_add s \<noteq> [] \<and> length (tables_to_add s) \<noteq> prev")
    case False
    with "1.prems"(1,2) show ?thesis by (auto simp: adds_loop.simps [of db_to prev s])
  next
    case True
    then obtain s1 where s1: "adds_sweep db_to 0 s = Returned s1"
      using "1.prems"(1)
      by (cases "adds_sweep db_to 0 s") (auto simp: adds_loop.simps [of db_to prev s])
    have run: "adds_loop db_to (length (tables_to_add s)) s1 = Returned s'"
      using "1.prems"(1) True s1 by (simp add: adds_loop.simps [of db_to prev s])
    have inv: "Inv s1"
      by (rule adds_sweep_invariant [OF s1 "1.prems"(2,3,4,5)])
    show ?thesis
      by (rule "1.IH" [OF True s1 run inv "1.prems"(3,4,5)])
  qed
qed

lemma adds_sweep_good_sound:
  "adds_sweep db_to i s = Returned s' \<Longrightarrow> good_sound db_to s \<Longrightarrow> good_sound db_to s'"
  by (erule adds_sweep_invariant) (auto simp: good_sound_def)

lemma adds_loop_all_blocked:
  "adds_loop db_to prev s = Returned s' \<Longrightarrow> good_sound db_to s
   \<Longrightarrow> (length (tables_to_add s) = prev \<longrightarrow> all_blocked db_to s)
   \<Longrightarrow> all_blocked db_to s'"
proof (induction db_to prev s arbitrary: s' rule: adds_loop.induct)
  case (1 db_to prev s)
  show ?case
  proof (cases "tables_to_add s \<noteq> [] \<and> length (tables_to_add s) \<noteq> prev")
    case False
    with "1.prems" show ?thesis
      by (auto simp: adds_loop.simps [of db_to prev s] all_blocked_def)
  next
    case True
    then obtain s1 where s1: "adds_sweep db_to 0 s = Returned s1"
      using "1.prems"(1)
      by (cases "adds_sweep db_to 0 s") (auto simp: adds_loop.simps [of db_to prev s])
    have run: "adds_loop db_to (length (tables_to_add s)) s1 = Returned s'"
      using "1.prems"(1) True s1 by (simp add: adds_loop.simps [of db_to prev s])
    have g1: "good_sound db_to s1" using s1 "1.prems"(2) by (rule adds_sweep_good_sound)
    have stuck: "length (tables_to_add s1) = length (tables_to_add s) \<longrightarrow> all_blocked db_to s1"
    proof
      assume len: "length (tables_to_add s1) = length (tables_to_add s)"
      from adds_sweep_fixpoint [OF s1 len "1.prems"(2)]
      show "all_blocked db_to s1" by (simp add: all_blocked_def list_all_length)
    qed
    show ?thesis by (rule "1.IH" [OF True s1 run g1 stuck])
  qed
qed

lemma process_adds_all_blocked:
  "process_adds db_to tracking pending = Returned s \<Longrightarrow> all_blocked db_to s"
  unfolding process_adds_def
  by (erule adds_loop_all_blocked) (auto simp: good_sound_def all_blocked_def)

lemma second_pass_emits_nothing:
  assumes "process_adds db_to tracking pending = Returned s1"
  shows "\<exists>g. process_adds db_to (tracking_db s1) (tables_to_add s1) =
     Returned \<lparr> tracking_db = tracking_db s1, tables_to_add = tables_to_add s1,
       errors_1215 = [], operations = [], good_tables = g \<rparr>"
  using process_adds_all_blocked [OF assms]
  by (intro process_adds_blocked) (simp add: all_blocked_def)



text \<open>
  A run that does not get past the table updates. The target adds the column \<^verbatim>\<open>ref_id\<close>
  and a key on it to \<^verbatim>\<open>tasks\<close>, and a table \<^verbatim>\<open>notes\<close> with a foreign key to that
  column. On its own the target is planned without error. From the source, the first add
  pass leaves \<^verbatim>\<open>notes\<close> pending, noted as good, and the update of \<^verbatim>\<open>tasks\<close> raises
  \<^verbatim>\<open>AttributeError\<close>: the second pass is not run.
\<close>

lemma second_pass_not_reached:
  "mygration unblock_target None =
     Returned ([], Some [Create_Table tasks_ref, Create_Table notes_table])
   \<and> process_adds unblock_target unblock_source [''notes''] =
       Returned \<lparr> tracking_db = unblock_source, tables_to_add = [''notes''],
         errors_1215 = [], operations = [], good_tables = {''notes''} \<rparr>
   \<and> unfulfilled_fks (make_database [tasks_ref]) notes_table = []
   \<and> mygration unblock_target (Some unblock_source) = Raised AttributeError"
  by code_simp

text \<open>
  C3. The claim fails on the code. The diff of \<^verbatim>\<open>tasks\<close> between the two schemas holds one
  sub-operation under \<^verbatim>\<open>kitchen_sink\<close>, the new column \<^verbatim>\<open>subject\<close> after \<^verbatim>\<open>name\<close>,
  and the planner raises \<^verbatim>\<open>AttributeError\<close> instead of emitting it.
\<close>

theorem update_with_new_column_raises:
  "to tasks_v1 tasks_v2 True = Returned (Split \<lparr> removed_fks = None,
       kitchen_sink = Some \<lparr> alter_name = ''tasks'',
         alter_operations = [Add_Column (text_column ''subject'') (PStr ''name'')] \<rparr>,
       fks = None \<rparr>)
   \<and> mygration (make_database [tasks_v2, plain ''accounts''])
        (Some (make_database [tasks_v1, plain ''accounts''])) = Raised AttributeError"
  by code_simp

text \<open>
  C5. The claim fails on the code: with three pending tables \<^verbatim>\<open>a\<close>, \<^verbatim>\<open>b\<close>, \<^verbatim>\<open>c\<close>
  that can all be created at once, the first sweep creates \<^verbatim>\<open>a\<close>, skips \<^verbatim>\<open>b\<close> and
  creates \<^verbatim>\<open>c\<close>; \<^verbatim>\<open>b\<close> is created by the next sweep, after \<^verbatim>\<open>c\<close>.
\<close>

theorem adds_sweep_skips_after_removal:
  "adds_sweep three_tables 0 \<lparr> tracking_db = empty_database,
       tables_to_add = [''a'', ''b'', ''c''], errors_1215 = [], operations = [],
       good_tables = {} \<rparr>
     = Returned \<lparr> tracking_db = make_database [plain ''a'', plain ''c''],
         tables_to_add = [''b''], errors_1215 = [],
         operations = [Create_Table (plain ''a''), Create_Table (plain ''c'')],
         good_tables = {} \<rparr>
   \<and> mygration three_tables None =
       Returned ([], Some [Create_Table (plain ''a''), Create_Table (plain ''c''),
                           Create_Table (plain ''b'')])"
  by code_simp

text \<open>
  C6. The claim fails on the code. For the two schemas of the scenario the diff of
  \<^verbatim>\<open>tasks\<close> drops \<^verbatim>\<open>task_id_fk\<close>, adds \<^verbatim>\<open>task_id_2_fk\<close> and changes
  \<^verbatim>\<open>account_id_tasks_fk\<close>; the planner raises \<^verbatim>\<open>AttributeError\<close> and returns no
  operation.
\<close>

theorem constraint_change_raises:
  "to tasks_fk_v1 tasks_fk_v2 True = Returned (Split \<lparr>
       removed_fks = Some \<lparr> alter_name = ''tasks'', alter_operations =
         [Remove_Constraint (foreign_key ''task_id_fk'' ''task_id'' ''tasks'' Cascade)] \<rparr>,
       kitchen_sink = None,
       fks = Some \<lparr> alter_name = ''tasks'', alter_operations =
         [Add_Constraint (foreign_key ''task_id_2_fk'' ''task_id'' ''tasks'' Cascade),
          Change_Constraint
            (foreign_key ''account_id_tasks_fk'' ''account_id'' ''accounts'' Restrict)] \<rparr> \<rparr>)
   \<and> mygration (make_database [tasks_fk_v2, plain ''accounts''])
        (Some (make_database [tasks_fk_v1, plain ''accounts''])) = Raised AttributeError"
  by code_simp

section \<open>Foreign-key safety\<close>

subsection \<open>The check of a foreign key and the shape of tables\<close>

lemma compatible_refl [simp]: "compatible a a" by (simp add: compatible_def)
lemma compatible_sym: "compatible a b \<Longrightarrow> compatible b a" by (simp add: compatible_def)
lemma compatible_trans: "compatible a b \<Longrightarrow> compatible b c \<Longrightarrow> compatible a c"
  by (simp add: compatible_def)

lemma same_columns_refl [simp]: "same_columns t t"
  by (simp add: same_columns_def option.rel_refl)
lemma same_columns_sym: "same_columns t u \<Longrightarrow> same_columns u t"
  unfolding same_columns_def
  by (metis compatible_sym option.rel_sel option.rel_cases rel_option_None1 option.rel_inject(2))
lemma same_columns_trans: "same_columns t u \<Longrightarrow> same_columns u v \<Longrightarrow> same_columns t v"
  unfolding same_columns_def
proof
  fix k assume a: "\<forall>k. rel_option compatible (map_of (columns t) k) (map_of (columns u) k)"
    and b: "\<forall>k. rel_option compatible (map_of (columns u) k) (map_of (columns v) k)"
  from a b have "rel_option compatible (map_of (columns t) k) (map_of (columns u) k)"
    "rel_option compatible (map_of (columns u) k) (map_of (columns v) k)" by auto
  then show "rel_option compatible (map_of (columns t) k) (map_of (columns v) k)"
    by (cases "map_of (columns t) k"; cases "map_of (columns u) k"; cases "map_of (columns v) k")
       (auto intro: compatible_trans)
qed

lemma same_shape_refl [simp]: "same_shape t t" by (simp add: same_shape_def same_indexes_def)
lemma same_shape_sym: "same_shape t u \<Longrightarrow> same_shape u t"
  by (auto simp: same_shape_def same_indexes_def dest: same_columns_sym)
lemma same_shape_trans: "same_shape t u \<Longrightarrow> same_shape u v \<Longrightarrow> same_shape t v"
  by (auto simp: same_shape_def same_indexes_def dest: same_columns_trans)

lemma od_in_map_of: "od_in k d \<longleftrightarrow> map_of d k \<noteq> None"
  by (simp add: od_in_def od_keys_def map_of_eq_None_iff)

lemma same_columns_od_in: "same_columns t u \<Longrightarrow> od_in k (columns t) = od_in k (columns u)"
  unfolding same_columns_def od_in_map_of
  by (metis option.rel_distinct(1) option.rel_distinct(2) not_None_eq)

lemma covered_image:
  "covered cs x = (\<exists>l \<in> idx_columns ` set (od_values (indexes x)). take (length cs) l = cs)"
  by (auto simp: covered_def list_ex_iff)

lemma same_indexes_covered: "same_indexes t u \<Longrightarrow> covered cs t = covered cs u"
  unfolding covered_image same_indexes_def set_map by (rule arg_cong [where f = "\<lambda>S. \<exists>l \<in> S. take (length cs) l = cs"])

lemma mismatch_cong:
  assumes "same_columns t t2" and "same_columns u u2" and "\<not> mismatch t u (l, f)"
  shows "\<not> mismatch t2 u2 (l, f)"
proof -
  from assms(3) obtain a b where a: "map_of (columns t) l = Some a"
    and b: "map_of (columns u) f = Some b" and ab: "compatible a b"
    by (auto simp: mismatch_def split: option.splits)
  from assms(1) a obtain a2 where a2: "map_of (columns t2) l = Some a2" and aa: "compatible a a2"
    unfolding same_columns_def by (metis option.rel_cases option.distinct(1) option.inject)
  from assms(2) b obtain b2 where b2: "map_of (columns u2) f = Some b2" and bb: "compatible b b2"
    unfolding same_columns_def by (metis option.rel_cases option.distinct(1) option.inject)
  have "compatible a2 b2" using aa ab bb by (simp add: compatible_def)
  with a2 b2 show ?thesis by (simp add: mismatch_def)
qed

lemma find_1215_None_filter:
  "find_1215 db t c = None \<longleftrightarrow>
     (\<exists>u. map_of (tables db) (fk_foreign_table c) = Some u
        \<and> filter (\<lambda>f. \<not> od_in f (columns u)) (fk_foreign_columns c) = []
        \<and> covered (fk_foreign_columns c) u
        \<and> filter (mismatch t u) (zip (fk_local_columns c) (fk_foreign_columns c)) = [])"
  by (auto simp: find_1215_def split: option.splits list.splits)

lemma find_1215_None_iff:
  "find_1215 db t c = None \<longleftrightarrow>
     (\<exists>u. map_of (tables db) (fk_foreign_table c) = Some u
        \<and> (\<forall>f \<in> set (fk_foreign_columns c). od_in f (columns u))
        \<and> covered (fk_foreign_columns c) u
        \<and> (\<forall>p \<in> set (zip (fk_local_columns c) (fk_foreign_columns c)). \<not> mismatch t u p))"
  unfolding find_1215_None_filter filter_empty_conv by simp

lemma find_1215_None_cong:
  assumes "find_1215 db t c = None" and "same_columns t t2"
    and "\<And>u. map_of (tables db) (fk_foreign_table c) = Some u
          \<Longrightarrow> \<exists>u2. map_of (tables db2) (fk_foreign_table c) = Some u2 \<and> same_shape u u2"
  shows "find_1215 db2 t2 c = None"
proof -
  from assms(1) obtain u where u: "map_of (tables db) (fk_foreign_table c) = Some u"
    and cols: "\<forall>f \<in> set (fk_foreign_columns c). od_in f (columns u)"
    and cov: "covered (fk_foreign_columns c) u"
    and mm: "\<forall>p \<in> set (zip (fk_local_columns c) (fk_foreign_columns c)). \<not> mismatch t u p"
    unfolding find_1215_None_iff by blast
  from assms(3) [OF u] obtain u2 where u2: "map_of (tables db2) (fk_foreign_table c) = Some u2"
    and sh: "same_shape u u2" by blast
  have sc: "same_columns u u2" and si: "same_indexes u u2" using sh by (auto simp: same_shape_def)
  have "\<forall>f \<in> set (fk_foreign_columns c). od_in f (columns u2)"
    using cols same_columns_od_in [OF sc] by simp
  moreover have "covered (fk_foreign_columns c) u2"
    using cov same_indexes_covered [OF si] by simp
  moreover have "\<forall>p \<in> set (zip (fk_local_columns c) (fk_foreign_columns c)). \<not> mismatch t2 u2 p"
  proof
    fix p assume p: "p \<in> set (zip (fk_local_columns c) (fk_foreign_columns c))"
    obtain l f where lf: "p = (l, f)" by (cases p)
    from mm p lf have "\<not> mismatch t u (l, f)" by auto
    from mismatch_cong [OF assms(2) sc this] lf show "\<not> mismatch t2 u2 p" by simp
  qed
  ultimately show ?thesis using u2 unfolding find_1215_None_iff by blast
qed

lemma db_extends_refl [simp]: "db_extends db db"
  by (simp add: db_extends_def keeps_constraints_def)

lemma db_extends_trans: "db_extends a b \<Longrightarrow> db_extends b c \<Longrightarrow> db_extends a c"
  unfolding db_extends_def keeps_constraints_def
  by (meson same_shape_trans)

lemma covers_extends: "covers a b \<Longrightarrow> db_extends b c \<Longrightarrow> covers a c"
  unfolding db_extends_def covers_def
  by (meson same_shape_trans)

lemma db_extends_covers: "db_extends a b \<Longrightarrow> covers a b"
  unfolding db_extends_def covers_def by blast

lemma fk_satisfied_extends:
  assumes "fk_satisfied db (n, c)" and "db_extends db db2"
  shows "fk_satisfied db2 (n, c)"
proof -
  from assms(1) obtain t where t: "map_of (tables db) n = Some t"
    and c: "map_of (constraints t) (fk_name c) = Some c" and ok: "find_1215 db t c = None"
    by (auto simp: fk_satisfied_def split: option.splits)
  from assms(2) t obtain t2 where t2: "map_of (tables db2) n = Some t2"
    and sh: "same_shape t t2" and kc: "keeps_constraints t t2"
    unfolding db_extends_def by blast
  have "find_1215 db2 t2 c = None"
  proof (rule find_1215_None_cong [OF ok])
    show "same_columns t t2" using sh by (simp add: same_shape_def)
  next
    fix u assume "map_of (tables db) (fk_foreign_table c) = Some u"
    with assms(2) show "\<exists>u2. map_of (tables db2) (fk_foreign_table c) = Some u2 \<and> same_shape u u2"
      unfolding db_extends_def by blast
  qed
  moreover have "map_of (constraints t2) (fk_name c) = Some c"
    using kc c by (simp add: keeps_constraints_def)
  ultimately show ?thesis using t2 by (simp add: fk_satisfied_def)
qed

lemma db_extends_add_table:
  "\<not> od_in (name t) (tables db) \<Longrightarrow> db_extends db (add_table t db)"
  unfolding db_extends_def add_table_def od_in_map_of
  by (auto simp: update_conv' keeps_constraints_def)

lemma db_extends_alter:
  assumes "map_of (tables db) n = Some t" and "same_shape t u" and "keeps_constraints t u"
  shows "db_extends db (db\<lparr>tables := AList.update n u (tables db)\<rparr>)"
  using assms unfolding db_extends_def
  by (auto simp: update_conv' keeps_constraints_def)

lemma find_1215_remove_table:
  "fk_foreign_table c \<noteq> n \<Longrightarrow> find_1215 (remove_table n db) t c = find_1215 db t c"
  by (simp add: find_1215_def remove_table_def)

lemma fk_satisfied_remove_table:
  assumes "fk_satisfied db (m, c)" and "m \<noteq> n" and "fk_foreign_table c \<noteq> n"
  shows "fk_satisfied (remove_table n db) (m, c)"
proof -
  have "map_of (tables (remove_table n db)) m = map_of (tables db) m"
    using assms(2) by (simp add: remove_table_def)
  with assms(1) find_1215_remove_table [OF assms(3)] show ?thesis
    by (auto simp: fk_satisfied_def split: option.splits)
qed

subsection \<open>Safe runs and the invariant of the add pass\<close>

lemma apply_operations_append:
  "apply_operations (xs @ ys) db = obind (apply_operations xs db) (apply_operations ys)"
  by (induction xs arbitrary: db) (auto simp: obind_def split: outcome.splits)

lemma fk_safe_nil [simp]: "fk_safe db0 []"
  by (simp add: fk_safe_def fk_safe_prefix_def)

lemma fk_safe_iff:
  "fk_safe db0 ops \<longleftrightarrow> (\<forall>k \<le> length ops. fk_safe_prefix db0 (take k ops))"
  by (auto simp: fk_safe_def list_all_iff less_Suc_eq_le)

lemma fk_safe_snoc:
  assumes "fk_safe db0 ops" and "fk_safe_prefix db0 (ops @ [x])"
  shows "fk_safe db0 (ops @ [x])"
  unfolding fk_safe_iff
proof (intro allI impI)
  fix k assume k: "k \<le> length (ops @ [x])"
  show "fk_safe_prefix db0 (take k (ops @ [x]))"
  proof (cases "k \<le> length ops")
    case True
    with assms(1) show ?thesis by (simp add: fk_safe_iff)
  next
    case False
    with k have "k = Suc (length ops)" by simp
    with assms(2) show ?thesis by simp
  qed
qed

lemma safe_to_nil [simp]: "safe_to db0 [] db0"
  by (simp add: safe_to_def)

lemma safe_to_all:
  assumes "safe_to db0 ops db"
  shows "list_all (fk_satisfied db) (concat (map added_fks ops))"
proof -
  from assms have "fk_safe db0 ops" and run: "apply_operations ops db0 = Returned db"
    by (simp_all add: safe_to_def)
  then have "fk_safe_prefix db0 (take (length ops) ops)"
    unfolding fk_safe_iff by blast
  with run show ?thesis by (simp add: fk_safe_prefix_def)
qed

lemma safe_to_snoc:
  assumes "safe_to db0 ops db" and "apply_operation x db = Returned db2"
    and "list_all (fk_satisfied db2) (concat (map added_fks ops) @ added_fks x)"
  shows "safe_to db0 (ops @ [x]) db2"
proof -
  have run: "apply_operations (ops @ [x]) db0 = Returned db2"
    using assms(1,2) by (simp add: safe_to_def apply_operations_append obind_def)
  then have "fk_safe_prefix db0 (ops @ [x])"
    using assms(3) by (simp add: fk_safe_prefix_def)
  with assms(1) run show ?thesis by (simp add: safe_to_def fk_safe_snoc)
qed

lemma keyed_by_map_of:
  assumes "keyed_by f d" and "map_of d k = Some v"
  shows "f v = k"
proof -
  from assms(2) have "(k, v) \<in> set d" by (rule map_of_SomeD)
  with assms(1) show ?thesis by (auto simp: keyed_by_def list_all_iff)
qed

lemma keyed_by_value:
  assumes "keyed_by f d" and "v \<in> set (od_values d)"
  shows "map_of d (f v) = Some v"
proof -
  from assms(2) obtain k where kv: "(k, v) \<in> set d" by (auto simp: od_values_def)
  with assms(1) have "f v = k" by (auto simp: keyed_by_def list_all_iff)
  moreover from assms(1) have "distinct (map fst d)" by (simp add: keyed_by_def od_keys_def)
  then have "map_of d k = Some v" using kv by (rule map_of_is_SomeI)
  ultimately show ?thesis by simp
qed

lemma wf_database_table:
  assumes "wf_database db" and "map_of (tables db) n = Some t"
  shows "name t = n \<and> wf_table t"
proof -
  from assms(2) have mem: "(n, t) \<in> set (tables db)" by (rule map_of_SomeD)
  then have "t \<in> set (od_values (tables db))" by (force simp: od_values_def)
  with assms(1) have "wf_table t" by (simp add: wf_database_def list_all_iff)
  moreover from assms(1) have "keyed_by name (tables db)" by (simp add: wf_database_def)
  then have "name t = n" using assms(2) by (rule keyed_by_map_of)
  ultimately show ?thesis by simp
qed

lemma map_filter_Nil: "List.map_filter f xs = [] \<longleftrightarrow> (\<forall>x \<in> set xs. f x = None)"
  by (simp add: List.map_filter_def filter_empty_conv)

lemma unfulfilled_fks_Nil:
  "unfulfilled_fks db t = [] \<longleftrightarrow> (\<forall>c \<in> set (od_values (constraints t)). find_1215 db t c = None)"
proof -
  have "unfulfilled_fks db t = [] \<longleftrightarrow> (\<forall>p \<in> set (constraints t). find_1215 db t (snd p) = None)"
    unfolding unfulfilled_fks_def map_filter_Nil
    by (intro ball_cong refl) (simp split: prod.splits option.splits)
  then show ?thesis by (simp add: od_values_def)
qed

lemma od_in_add_table:
  "od_in k (tables (add_table t db)) \<longleftrightarrow> k = name t \<or> od_in k (tables db)"
  by (auto simp: od_in_map_of add_table_def update_conv')

lemma map_of_add_table:
  "map_of (tables (add_table t db)) k = (if k = name t then Some t else map_of (tables db) k)"
  by (simp add: add_table_def update_conv')

lemma adds_inv_create:
  assumes wf: "wf_database db_to" and inv: "adds_inv db_to db0 pending0 s"
    and n: "n \<in> set (tables_to_add s)" and t: "map_of (tables db_to) n = Some t"
    and ok: "unfulfilled_fks (tracking_db s) t = []"
  shows "adds_inv db_to db0 pending0
     (s\<lparr>tables_to_add := remove1 n (tables_to_add s),
        operations := operations s @ [Create_Table t],
        tracking_db := add_table t (tracking_db s)\<rparr>)"
proof -
  let ?tr = "tracking_db s" and ?tr2 = "add_table t (tracking_db s)"
  from wf_database_table [OF wf t] have nt: "name t = n" and wt: "wf_table t" by auto
  from inv have safe: "safe_to db0 (operations s) ?tr"
    and dist: "distinct (tables_to_add s)"
    and disj: "\<forall>n \<in> set (tables_to_add s). \<not> od_in n (tables ?tr)"
    and ext0: "db_extends db0 ?tr"
    and cov: "errors_1215 s = [] \<longrightarrow>
           (\<forall>n \<in> set pending0. n \<in> set (tables_to_add s)
              \<or> (\<exists>t. map_of (tables db_to) n = Some t
                    \<and> map_of (tables ?tr) n = Some t
                    \<and> (\<forall>c \<in> set (od_values (constraints t)). find_1215 ?tr t c = None)))"
    and src: "\<forall>(m, c) \<in> set (concat (map added_fks (operations s))).
            \<exists>t. map_of (tables db_to) m = Some t \<and> c \<in> set (od_values (constraints t))"
    and keys: "\<forall>n. od_in n (tables ?tr) \<longrightarrow> od_in n (tables db0) \<or> n \<in> set pending0"
    and sub: "set (tables_to_add s) \<subseteq> set pending0"
    by (auto simp: adds_inv_def)
  have fresh: "\<not> od_in (name t) (tables ?tr)" using disj n nt by simp
  have ext: "db_extends ?tr ?tr2" using fresh by (rule db_extends_add_table)
  have keep: "\<And>u c. find_1215 ?tr u c = None \<Longrightarrow> find_1215 ?tr2 u c = None"
  proof -
    fix u c assume a: "find_1215 ?tr u c = None"
    show "find_1215 ?tr2 u c = None"
      by (rule find_1215_None_cong [OF a same_columns_refl])
         (use ext in \<open>auto simp: db_extends_def\<close>)
  qed
  have own: "\<forall>c \<in> set (od_values (constraints t)). find_1215 ?tr2 t c = None"
    using ok keep by (simp add: unfulfilled_fks_Nil)
  have new: "list_all (fk_satisfied ?tr2) (added_fks (Create_Table t))"
    using own wt
    by (auto simp: list_all_iff fk_satisfied_def map_of_add_table wf_table_def keyed_by_value)
  have old: "list_all (fk_satisfied ?tr2) (concat (map added_fks (operations s)))"
    using safe_to_all [OF safe] ext
    by (auto simp: list_all_iff intro: fk_satisfied_extends)
  have 1: "safe_to db0 (operations s @ [Create_Table t]) ?tr2"
    by (rule safe_to_snoc [OF safe]) (use old new in auto)
  have 2: "distinct (remove1 n (tables_to_add s))" using dist by simp
  have 3: "\<forall>k \<in> set (remove1 n (tables_to_add s)). \<not> od_in k (tables ?tr2)"
    using dist disj nt by (auto simp: od_in_add_table)
  have 4: "db_extends db0 ?tr2" using ext0 ext by (rule db_extends_trans)
  have 5: "errors_1215 s = [] \<longrightarrow>
           (\<forall>k \<in> set pending0. k \<in> set (remove1 n (tables_to_add s))
              \<or> (\<exists>u. map_of (tables db_to) k = Some u
                    \<and> map_of (tables ?tr2) k = Some u
                    \<and> (\<forall>c \<in> set (od_values (constraints u)). find_1215 ?tr2 u c = None)))"
  proof (intro impI ballI)
    fix k assume e: "errors_1215 s = []" and k: "k \<in> set pending0"
    show "k \<in> set (remove1 n (tables_to_add s))
              \<or> (\<exists>u. map_of (tables db_to) k = Some u
                    \<and> map_of (tables ?tr2) k = Some u
                    \<and> (\<forall>c \<in> set (od_values (constraints u)). find_1215 ?tr2 u c = None))"
    proof (cases "k = n")
      case True
      with t own nt show ?thesis by (auto simp: map_of_add_table)
    next
      case False
      from cov e k have "k \<in> set (tables_to_add s)
              \<or> (\<exists>u. map_of (tables db_to) k = Some u
                    \<and> map_of (tables ?tr) k = Some u
                    \<and> (\<forall>c \<in> set (od_values (constraints u)). find_1215 ?tr u c = None))"
        by blast
      then show ?thesis
      proof
        assume "k \<in> set (tables_to_add s)"
        with False dist show ?thesis by simp
      next
        assume "\<exists>u. map_of (tables db_to) k = Some u
                    \<and> map_of (tables ?tr) k = Some u
                    \<and> (\<forall>c \<in> set (od_values (constraints u)). find_1215 ?tr u c = None)"
        with False nt keep show ?thesis by (auto simp: map_of_add_table)
      qed
    qed
  qed
  have 6: "\<forall>(m, c) \<in> set (concat (map added_fks (operations s @ [Create_Table t]))).
            \<exists>t. map_of (tables db_to) m = Some t \<and> c \<in> set (od_values (constraints t))"
    using src t nt by auto
  have 7: "\<forall>k. od_in k (tables ?tr2) \<longrightarrow> od_in k (tables db0) \<or> k \<in> set pending0"
    using keys n sub nt by (auto simp: od_in_add_table)
  have 8: "set (remove1 n (tables_to_add s)) \<subseteq> set pending0"
    using sub set_remove1_subset by fastforce
  from 1 2 3 4 5 6 7 8 show ?thesis by (simp add: adds_inv_def)
qed

lemma adds_inv_mark:
  "adds_inv db_to db0 pending0 s \<Longrightarrow> adds_inv db_to db0 pending0 (s\<lparr>good_tables := g\<rparr>)"
  by (simp add: adds_inv_def)

lemma adds_inv_drop:
  assumes "adds_inv db_to db0 pending0 s" and "es \<noteq> []"
  shows "adds_inv db_to db0 pending0
     (s\<lparr>tables_to_add := remove1 n (tables_to_add s), errors_1215 := errors_1215 s @ es\<rparr>)"
proof -
  have "set (remove1 n (tables_to_add s)) \<subseteq> set (tables_to_add s)" by (rule set_remove1_subset)
  with assms show ?thesis by (auto simp: adds_inv_def)
qed

lemma process_adds_inv:
  assumes wf: "wf_database db_to" and "distinct pending0"
    and "\<forall>n \<in> set pending0. \<not> od_in n (tables db0)"
    and run: "process_adds db_to db0 pending0 = Returned s1"
  shows "adds_inv db_to db0 pending0 s1"
proof (rule adds_loop_invariant [OF run [unfolded process_adds_def],
      where Inv = "adds_inv db_to db0 pending0"])
  show "adds_inv db_to db0 pending0 \<lparr>tracking_db = db0, tables_to_add = pending0,
      errors_1215 = [], operations = [], good_tables = {}\<rparr>"
    using assms(2,3) by (simp add: adds_inv_def)
next
  fix s n t
  assume "adds_inv db_to db0 pending0 s" "n \<in> set (tables_to_add s)"
    "map_of (tables db_to) n = Some t" "unfulfilled_fks (tracking_db s) t = []"
  then show "adds_inv db_to db0 pending0
     (s\<lparr>tables_to_add := remove1 n (tables_to_add s),
        operations := operations s @ [Create_Table t],
        tracking_db := add_table t (tracking_db s)\<rparr>)"
    by (rule adds_inv_create [OF wf])
next
  fix s n t
  assume "adds_inv db_to db0 pending0 s"
  then show "adds_inv db_to db0 pending0 (s\<lparr>good_tables := insert n (good_tables s)\<rparr>)"
    by (rule adds_inv_mark)
next
  fix s n t
  assume "adds_inv db_to db0 pending0 s" "unfulfilled_fks db_to t \<noteq> []"
  then show "adds_inv db_to db0 pending0
     (s\<lparr>tables_to_add := remove1 n (tables_to_add s),
        errors_1215 := errors_1215 s
          @ map (\<lambda>error. fst (snd error)) (unfulfilled_fks db_to t)\<rparr>)"
    by (intro adds_inv_drop) simp_all
qed

lemma find_1215_None_table:
  "find_1215 db t c = None \<Longrightarrow> od_in (fk_foreign_table c) (tables db)"
  by (auto simp: find_1215_None_iff od_in_map_of)

lemma process_updates_returns:
  "process_updates db_to db_from ns = Returned r \<Longrightarrow> r = ([], [])"
  by (induction ns) (auto simp: obind_def split: outcome.splits to_result.splits if_splits)

lemma differences_from_nothing: "differences [] b = (od_keys b, [], [])"
  by (simp add: differences_def od_in_def od_keys_def)

lemma plan_from_returned:
  assumes "plan_from db_to db_from = Returned ([], Some ops)"
    and "differences (case db_from of Some d \<Rightarrow> tables d | None \<Rightarrow> []) (tables db_to)
           = (pending, removes, updates)"
  shows "\<exists>s1. process_adds db_to (case db_from of Some d \<Rightarrow> d | None \<Rightarrow> empty_database) pending
             = Returned s1
     \<and> errors_1215 s1 = []
     \<and> process_updates db_to db_from updates = Returned ([], [])
     \<and> finish db_to (tracking_db s1) (tables_to_add s1) removes [] (Some (operations s1)) []
         = Returned ([], Some ops)"
proof -
  let ?db0 = "case db_from of Some d \<Rightarrow> d | None \<Rightarrow> empty_database"
  obtain s1 where s1: "process_adds db_to ?db0 pending = Returned s1"
    using assms by (cases "process_adds db_to ?db0 pending")
      (auto simp: plan_from_def obind_def)
  have e1: "errors_1215 s1 = []"
    using assms s1 by (auto simp: plan_from_def obind_def split: if_splits)
  obtain r where r: "process_updates db_to db_from updates = Returned r"
    using assms s1 e1 by (cases "process_updates db_to db_from updates")
      (auto simp: plan_from_def obind_def)
  then have r0: "r = ([], [])" by (rule process_updates_returns)
  show ?thesis
  proof (cases "tables_to_add s1 = []")
    case True
    with assms s1 e1 r r0 show ?thesis by (simp add: plan_from_def obind_def)
  next
    case False
    from second_pass_emits_nothing [OF s1] obtain g where
      s2: "process_adds db_to (tracking_db s1) (tables_to_add s1) =
        Returned \<lparr> tracking_db = tracking_db s1, tables_to_add = tables_to_add s1,
          errors_1215 = [], operations = [], good_tables = g \<rparr>" by blast
    with assms s1 e1 r r0 False show ?thesis by (simp add: plan_from_def obind_def)
  qed
qed

lemma standalone_refs_closed:
  assumes wf: "wf_database db_to" and run: "plan_from db_to None = Returned ([], r)"
  shows "refs_closed db_to"
proof -
  let ?pending = "od_keys (tables db_to)"
  obtain s1 where s1: "process_adds db_to empty_database ?pending = Returned s1"
    using run by (cases "process_adds db_to empty_database ?pending")
      (auto simp: plan_from_def obind_def differences_from_nothing)
  have e1: "errors_1215 s1 = []"
    using run s1 by (auto simp: plan_from_def obind_def differences_from_nothing split: if_splits)
  have dist: "distinct ?pending" using wf by (simp add: wf_database_def keyed_by_def)
  have inv: "adds_inv db_to empty_database ?pending s1"
    by (rule process_adds_inv [OF wf dist _ s1]) (simp add: empty_database_def od_in_def od_keys_def)
  have blk: "all_blocked db_to s1" using s1 by (rule process_adds_all_blocked)
  show ?thesis
    unfolding refs_closed_def
  proof (intro ballI)
    fix t c assume t: "t \<in> set (od_values (tables db_to))"
      and c: "c \<in> set (od_values (constraints t))"
    from wf t have m: "map_of (tables db_to) (name t) = Some t"
      by (simp add: wf_database_def keyed_by_value)
    then have n: "name t \<in> set ?pending"
      by (auto simp: od_keys_def dest!: map_of_SomeD intro: rev_image_eqI)
    from inv e1 n have "name t \<in> set (tables_to_add s1)
        \<or> (\<exists>u. map_of (tables db_to) (name t) = Some u
              \<and> map_of (tables (tracking_db s1)) (name t) = Some u
              \<and> (\<forall>c \<in> set (od_values (constraints u)). find_1215 (tracking_db s1) u c = None))"
      unfolding adds_inv_def by blast
    then show "od_in (fk_foreign_table c) (tables db_to)"
    proof
      assume "name t \<in> set (tables_to_add s1)"
      with blk have "blocked db_to (tracking_db s1) (name t)"
        by (simp add: all_blocked_def list_all_iff)
      with m have "unfulfilled_fks db_to t = []" by (simp add: blocked_def)
      with c have "find_1215 db_to t c = None" by (simp add: unfulfilled_fks_Nil)
      then show ?thesis by (rule find_1215_None_table)
    next
      assume "\<exists>u. map_of (tables db_to) (name t) = Some u
              \<and> map_of (tables (tracking_db s1)) (name t) = Some u
              \<and> (\<forall>c \<in> set (od_values (constraints u)). find_1215 (tracking_db s1) u c = None)"
      with m c have "find_1215 (tracking_db s1) t c = None" by auto
      then have "od_in (fk_foreign_table c) (tables (tracking_db s1))"
        by (rule find_1215_None_table)
      with inv have "od_in (fk_foreign_table c) (tables empty_database)
          \<or> fk_foreign_table c \<in> set ?pending"
        unfolding adds_inv_def by blast
      then show ?thesis by (simp add: empty_database_def od_in_def od_keys_def)
    qed
  qed
qed

subsection \<open>Tables whose diff has nothing for the kitchen sink\<close>

lemma collect_Nil_nonempty_body:
  assumes "collect body ks = Returned []" and "\<And>k ys. body k = Returned ys \<Longrightarrow> ys \<noteq> []"
  shows "ks = []"
proof (cases ks)
  case Nil
  then show ?thesis .
next
  case (Cons k rest)
  with assms(1) obtain ys zs where "body k = Returned ys" and "ys @ zs = []"
    by (auto simp: obind_def split: outcome.splits)
  with assms(2) show ?thesis by auto
qed

lemma collect_changed_Nil:
  "collect (changed str mk a b) ks = Returned [] \<Longrightarrow> k \<in> set ks
   \<Longrightarrow> \<exists>x y. map_of a k = Some x \<and> map_of b k = Some y \<and> str x = str y"
proof (induction ks)
  case Nil
  then show ?case by simp
next
  case (Cons k' ks)
  from Cons.prems(1) obtain ys zs where h: "changed str mk a b k' = Returned ys"
    and r: "collect (changed str mk a b) ks = Returned zs" and e: "ys @ zs = []"
    by (auto simp: obind_def split: outcome.splits)
  from e have ys: "ys = []" and zs: "zs = []" by auto
  show ?case
  proof (cases "k = k'")
    case True
    from h ys show ?thesis unfolding True
      by (auto simp: changed_def obind_def od_get_def split: option.splits if_splits)
  next
    case False
    with Cons.prems(2) have "k \<in> set ks" by simp
    with Cons.IH r zs show ?thesis by simp
  qed
qed

lemma to_split_kitchen_sink:
  assumes "to u t True = Returned (Split diff)" and "kitchen_sink diff = None"
  shows "fst (differences (columns u) (columns t)) = []
     \<and> fst (snd (differences (columns u) (columns t))) = []
     \<and> collect (changed str_column Change_Column (columns u) (columns t))
          (snd (snd (differences (columns u) (columns t)))) = Returned []
     \<and> fst (differences (indexes u) (indexes t)) = []
     \<and> fst (snd (differences (indexes u) (indexes t))) = []
     \<and> collect (changed str_index Change_Key (indexes u) (indexes t))
          (snd (snd (differences (indexes u) (indexes t)))) = Returned []"
proof -
  obtain ac rc oc where dc: "differences (columns u) (columns t) = (ac, rc, oc)"
    by (cases "differences (columns u) (columns t)")
  obtain ak rk ok where dk: "differences (indexes u) (indexes t) = (ak, rk, ok)"
    by (cases "differences (indexes u) (indexes t)")
  obtain af rf of' where df: "differences (constraints u) (constraints t) = (af, rf, of')"
    by (cases "differences (constraints u) (constraints t)")
  let ?b1 = "\<lambda>new_column.
               obind (od_get new_column (columns t)) (\<lambda>c.
               obind (column_before new_column t) (\<lambda>p.
                 Returned [Add_Column c p]))"
  let ?b3 = "\<lambda>removed_column.
               obind (od_get removed_column (columns u)) (\<lambda>c.
                 Returned [Remove_Column c])"
  let ?b4 = "\<lambda>new_key.
               obind (od_get new_key (indexes t)) (\<lambda>k.
                 Returned [Add_Key k])"
  let ?b5 = "\<lambda>removed_key.
               obind (od_get removed_key (indexes u)) (\<lambda>k.
                 Returned [Remove_Key k])"
  from assms(1) obtain A B C D E F where
    A: "collect ?b1 ac = Returned A"
    and B: "collect (changed str_column Change_Column (columns u) (columns t)) oc = Returned B"
    and C: "collect ?b3 rc = Returned C"
    and D: "collect ?b4 ak = Returned D"
    and E: "collect ?b5 rk = Returned E"
    and F: "collect (changed str_index Change_Key (indexes u) (indexes t)) ok = Returned F"
    and ks: "kitchen_sink diff = if_any (name u) (A @ B @ C @ D @ E @ F)"
    unfolding to_def dc dk df
    by (auto simp: obind_def split: outcome.splits)
  from ks assms(2) have z: "A = [] \<and> B = [] \<and> C = [] \<and> D = [] \<and> E = [] \<and> F = []"
    by (auto simp: if_any_def split: if_splits)
  have "ac = []"
    by (rule collect_Nil_nonempty_body [of ?b1]) (use A z in \<open>auto simp: obind_def split: outcome.splits\<close>)
  moreover have "rc = []"
    by (rule collect_Nil_nonempty_body [of ?b3]) (use C z in \<open>auto simp: obind_def split: outcome.splits\<close>)
  moreover have "ak = []"
    by (rule collect_Nil_nonempty_body [of ?b4]) (use D z in \<open>auto simp: obind_def split: outcome.splits\<close>)
  moreover have "rk = []"
    by (rule collect_Nil_nonempty_body [of ?b5]) (use E z in \<open>auto simp: obind_def split: outcome.splits\<close>)
  ultimately show ?thesis using B F z dc dk by simp
qed

lemma no_diff_entries:
  assumes "fst (differences a b) = []" and "fst (snd (differences a b)) = []"
    and "collect (changed str mk a b) (snd (snd (differences a b))) = Returned []"
  shows "(\<forall>k. od_in k a = od_in k b)
     \<and> (\<forall>k x. map_of a k = Some x \<longrightarrow> (\<exists>y. map_of b k = Some y \<and> str x = str y))"
proof -
  from assms(1) have ba: "\<forall>k. od_in k b \<longrightarrow> od_in k a"
    by (auto simp: differences_def filter_empty_conv od_in_def)
  from assms(2) have ab: "\<forall>k. od_in k a \<longrightarrow> od_in k b"
    by (auto simp: differences_def filter_empty_conv od_in_def)
  have "\<And>k x. map_of a k = Some x \<Longrightarrow> \<exists>y. map_of b k = Some y \<and> str x = str y"
  proof -
    fix k x assume x: "map_of a k = Some x"
    then have "od_in k a" by (simp add: od_in_map_of)
    with ab have "k \<in> set (snd (snd (differences a b)))"
      by (auto simp: differences_def od_in_def)
    from collect_changed_Nil [OF assms(3) this] x show "\<exists>y. map_of b k = Some y \<and> str x = str y"
      by auto
  qed
  with ab ba show ?thesis by blast
qed

lemma faithful_columns:
  assumes "faithful_rendering u t" and "map_of (columns u) k = Some a"
    and "map_of (columns t) k = Some b" and "str_column a = str_column b"
  shows "compatible a b"
proof -
  from assms(2) have "(k, a) \<in> set (columns u)" by (rule map_of_SomeD)
  with assms(1) have "case map_of (columns t) k of None \<Rightarrow> True
      | Some b \<Rightarrow> str_column a = str_column b \<longrightarrow> compatible a b"
    by (auto simp: faithful_rendering_def list_all_iff)
  with assms(3,4) show ?thesis by simp
qed

lemma faithful_indexes:
  assumes "faithful_rendering u t" and "map_of (indexes u) k = Some a"
    and "map_of (indexes t) k = Some b" and "str_index a = str_index b"
  shows "idx_columns a = idx_columns b"
proof -
  from assms(2) have "(k, a) \<in> set (indexes u)" by (rule map_of_SomeD)
  with assms(1) have "case map_of (indexes t) k of None \<Rightarrow> True
      | Some b \<Rightarrow> str_index a = str_index b \<longrightarrow> idx_columns a = idx_columns b"
    by (auto simp: faithful_rendering_def list_all_iff)
  with assms(3,4) show ?thesis by simp
qed

lemma value_map_of:
  assumes "distinct (od_keys d)" and "v \<in> set (od_values d)"
  shows "\<exists>k. map_of d k = Some v"
proof -
  from assms(2) obtain k where "(k, v) \<in> set d" by (auto simp: od_values_def)
  with assms(1) have "map_of d k = Some v" by (simp add: od_keys_def)
  then show ?thesis ..
qed

lemma map_of_value: "map_of d k = Some v \<Longrightarrow> v \<in> set (od_values d)"
  by (force simp: od_values_def dest!: map_of_SomeD)

lemma no_diff_same_shape:
  assumes wu: "wf_table u" and wt: "wf_table t" and f: "faithful_rendering u t"
    and run: "to u t True = Returned (Split diff)" and ks: "kitchen_sink diff = None"
  shows "same_shape u t"
proof -
  note d = to_split_kitchen_sink [OF run ks]
  from d have c: "(\<forall>k. od_in k (columns u) = od_in k (columns t))
     \<and> (\<forall>k x. map_of (columns u) k = Some x
           \<longrightarrow> (\<exists>y. map_of (columns t) k = Some y \<and> str_column x = str_column y))"
    by (intro no_diff_entries [where mk = Change_Column]) simp_all
  from d have i: "(\<forall>k. od_in k (indexes u) = od_in k (indexes t))
     \<and> (\<forall>k x. map_of (indexes u) k = Some x
           \<longrightarrow> (\<exists>y. map_of (indexes t) k = Some y \<and> str_index x = str_index y))"
    by (intro no_diff_entries [where mk = Change_Key]) simp_all
  have "same_columns u t"
    unfolding same_columns_def
  proof
    fix k
    show "rel_option compatible (map_of (columns u) k) (map_of (columns t) k)"
    proof (cases "map_of (columns u) k")
      case None
      then have "\<not> od_in k (columns u)" by (simp add: od_in_map_of)
      with c have "map_of (columns t) k = None" by (simp add: od_in_map_of)
      with None show ?thesis by simp
    next
      case (Some a)
      with c obtain b where b: "map_of (columns t) k = Some b" and s: "str_column a = str_column b"
        by blast
      from faithful_columns [OF f Some b s] Some b show ?thesis by simp
    qed
  qed
  moreover have "same_indexes u t"
    unfolding same_indexes_def
  proof (intro equalityI subsetI)
    fix l assume "l \<in> set (map idx_columns (od_values (indexes u)))"
    then obtain x where x: "x \<in> set (od_values (indexes u))" and l: "l = idx_columns x" by auto
    from wu have "distinct (od_keys (indexes u))" by (simp add: wf_table_def keyed_by_def)
    from value_map_of [OF this x] obtain k where k: "map_of (indexes u) k = Some x" ..
    with i obtain y where y: "map_of (indexes t) k = Some y" and s: "str_index x = str_index y"
      by blast
    from faithful_indexes [OF f k y s] l have "l = idx_columns y" by simp
    with map_of_value [OF y]
    show "l \<in> set (map idx_columns (od_values (indexes t)))" by simp
  next
    fix l assume "l \<in> set (map idx_columns (od_values (indexes t)))"
    then obtain y where y: "y \<in> set (od_values (indexes t))" and l: "l = idx_columns y" by auto
    from wt have "distinct (od_keys (indexes t))" by (simp add: wf_table_def keyed_by_def)
    from value_map_of [OF this y] obtain k where k: "map_of (indexes t) k = Some y" ..
    then have "od_in k (indexes u)" using i by (simp add: od_in_map_of)
    then obtain x where x: "map_of (indexes u) k = Some x" by (auto simp: od_in_map_of)
    with i k have s: "str_index x = str_index y" by fastforce
    from faithful_indexes [OF f x k s] l have "l = idx_columns x" by simp
    with map_of_value [OF x]
    show "l \<in> set (map idx_columns (od_values (indexes u)))" by simp
  qed
  ultimately show ?thesis by (simp add: same_shape_def)
qed

lemma to_split: "to u t True = Returned r \<Longrightarrow> \<exists>diff. r = Split diff"
  unfolding to_def
  by (auto simp: obind_def split: outcome.splits prod.splits)

lemma process_updates_no_diff:
  "process_updates db_to (Some d) ns = Returned r \<Longrightarrow> n \<in> set ns
   \<Longrightarrow> \<exists>u t diff. map_of (tables d) n = Some u \<and> map_of (tables db_to) n = Some t
         \<and> to u t True = Returned (Split diff) \<and> kitchen_sink diff = None"
proof (induction ns)
  case Nil
  then show ?case by simp
next
  case (Cons m ns)
  from Cons.prems(1) obtain t where t: "map_of (tables db_to) m = Some t"
    by (auto simp: obind_def od_get_def split: option.splits)
  from Cons.prems(1) t obtain u where u: "map_of (tables d) m = Some u"
    by (auto simp: obind_def od_get_def split: option.splits)
  from Cons.prems(1) t u obtain x where x: "to u t True = Returned x"
    by (cases "to u t True") (auto simp: obind_def od_get_def)
  from to_split [OF x] obtain diff where diff: "x = Split diff" ..
  from Cons.prems(1) t u x diff have ks: "kitchen_sink diff = None"
    and rest: "process_updates db_to (Some d) ns = Returned r"
    by (auto simp: obind_def od_get_def split: if_splits)
  show ?case
  proof (cases "n = m")
    case True
    with t u x diff ks show ?thesis by auto
  next
    case False
    with Cons.prems(2) have "n \<in> set ns" by simp
    from Cons.IH [OF rest this] show ?thesis .
  qed
qed

subsection \<open>The cycle break, the drops and the deferred foreign keys\<close>

lemma strip_constraints_result:
  "strip_constraints cs t = Returned t2
   \<Longrightarrow> t2 = t\<lparr>constraints := filter (\<lambda>(k, c). k \<notin> fk_name ` set cs) (constraints t)\<rparr>"
proof (induction cs arbitrary: t)
  case Nil
  then show ?case by simp
next
  case (Cons c cs)
  let ?t1 = "t\<lparr>constraints := AList.delete (fk_name c) (constraints t)\<rparr>"
  from Cons.prems have run: "strip_constraints cs ?t1 = Returned t2"
    by (auto simp: remove_constraint_def Let_def split: if_splits)
  have "filter (\<lambda>(k, c'). k \<notin> fk_name ` set cs) (AList.delete (fk_name c) (constraints t))
      = filter (\<lambda>(k, c'). k \<notin> fk_name ` set (c # cs)) (constraints t)"
    unfolding AList.delete_eq by (auto intro: filter_cong)
  with Cons.IH [OF run] show ?case by simp
qed

lemma bad_constraints_aux:
  "map snd (map snd (List.map_filter (\<lambda>(n, c).
        case find_1215 db t c of None \<Rightarrow> None | Some r \<Rightarrow> Some (n, ((fk_name c, r), c))) cs))
      = filter (\<lambda>c. find_1215 db t c \<noteq> None) (map snd cs)"
  by (induction cs) (auto simp: List.map_filter_simps split: option.splits)

lemma bad_constraints_eq:
  "bad_constraints db t = filter (\<lambda>c. find_1215 db t c \<noteq> None) (od_values (constraints t))"
  unfolding bad_constraints_def unfulfilled_fks_def od_values_def by (rule bad_constraints_aux)

lemma stripped_fields [simp]:
  "name (stripped db t) = name t" "columns (stripped db t) = columns t"
  "indexes (stripped db t) = indexes t"
  by (simp_all add: stripped_def)

lemma keyed_by_filter: "keyed_by f d \<Longrightarrow> keyed_by f (filter P d)"
  by (auto simp: keyed_by_def od_keys_def list_all_iff distinct_map_filter)

lemma keyed_by_unique:
  assumes "keyed_by f d" and "(k, v) \<in> set d" and "w \<in> set (od_values d)" and "f w = k"
  shows "w = v"
proof -
  from assms(1,3) have "map_of d (f w) = Some w" by (rule keyed_by_value)
  moreover from assms(1,2) have "map_of d k = Some v"
    by (simp add: keyed_by_def od_keys_def)
  ultimately show ?thesis using assms(4) by simp
qed

lemma stripped_keeps:
  assumes "wf_table t" and "(k, c) \<in> set (constraints t)"
  shows "k \<notin> fk_name ` set (bad_constraints db t) \<longleftrightarrow> find_1215 db t c = None"
proof -
  from assms have kb: "keyed_by fk_name (constraints t)" by (simp add: wf_table_def)
  from kb assms(2) have k: "fk_name c = k" by (auto simp: keyed_by_def list_all_iff)
  have cv: "c \<in> set (od_values (constraints t))" using assms(2) by (force simp: od_values_def)
  show ?thesis
  proof
    assume a: "k \<notin> fk_name ` set (bad_constraints db t)"
    show "find_1215 db t c = None"
    proof (rule ccontr)
      assume "find_1215 db t c \<noteq> None"
      with cv have "c \<in> set (bad_constraints db t)" by (simp add: bad_constraints_eq)
      with k a show False by auto
    qed
  next
    assume a: "find_1215 db t c = None"
    show "k \<notin> fk_name ` set (bad_constraints db t)"
    proof
      assume "k \<in> fk_name ` set (bad_constraints db t)"
      then obtain w where w: "w \<in> set (od_values (constraints t))"
        and bad: "find_1215 db t w \<noteq> None" and fw: "fk_name w = k"
        by (auto simp: bad_constraints_eq)
      from keyed_by_unique [OF kb assms(2) w fw] bad a show False by simp
    qed
  qed
qed

lemma stripped_values:
  assumes "wf_table t"
  shows "od_values (constraints (stripped db t))
     = filter (\<lambda>c. find_1215 db t c = None) (od_values (constraints t))"
proof -
  have "filter (\<lambda>(k, c). k \<notin> fk_name ` set (bad_constraints db t)) (constraints t)
      = filter (\<lambda>(k, c). find_1215 db t c = None) (constraints t)"
    by (rule filter_cong [OF refl]) (use stripped_keeps [OF assms] in auto)
  then show ?thesis
    by (simp add: stripped_def od_values_def filter_map comp_def case_prod_unfold)
qed

lemma stripped_keyed: "wf_table t \<Longrightarrow> keyed_by fk_name (constraints (stripped db t))"
  by (simp add: stripped_def wf_table_def keyed_by_filter)

lemma stripped_same_shape [simp]: "same_shape t (stripped db t)"
  by (simp add: same_shape_def same_columns_def same_indexes_def option.rel_refl)

lemma update_fresh: "k \<notin> fst ` set al \<Longrightarrow> AList.update k v al = al @ [(k, v)]"
  by (induction al) auto

lemma apply_add_constraints:
  assumes "distinct (map fk_name cs)"
    and "\<forall>c \<in> set cs. \<not> od_in (fk_name c) (constraints t)"
  shows "apply_sub_operations (map Add_Constraint cs) t
     = (Returned (), t\<lparr>constraints := constraints t @ map (\<lambda>c. (fk_name c, c)) cs\<rparr>)"
  using assms
proof (induction cs arbitrary: t)
  case Nil
  then show ?case by simp
next
  case (Cons c cs)
  let ?t1 = "t\<lparr>constraints := constraints t @ [(fk_name c, c)]\<rparr>"
  from Cons.prems have fresh: "\<not> od_in (fk_name c) (constraints t)" by simp
  then have step: "add_constraint c t = (Returned (), ?t1)"
    by (simp add: add_constraint_def update_fresh od_in_def od_keys_def)
  have f: "\<forall>c' \<in> set cs. \<not> od_in (fk_name c') (constraints ?t1)"
    using Cons.prems by (auto simp: od_in_def od_keys_def image_iff)
  have d: "distinct (map fk_name cs)" using Cons.prems by simp
  have "apply_sub_operations (map Add_Constraint cs) ?t1
     = (Returned (), ?t1\<lparr>constraints := constraints ?t1 @ map (\<lambda>c. (fk_name c, c)) cs\<rparr>)"
    by (rule Cons.IH [OF d f])
  with step show ?case by simp
qed

lemma create_stripped_satisfied:
  assumes wt: "wf_table t" and ext: "db_extends db1 db2"
    and here: "map_of (tables db2) (name t) = Some (stripped db1 t)"
  shows "list_all (fk_satisfied db2) (added_fks (Create_Table (stripped db1 t)))"
  unfolding list_all_iff
proof
  fix p assume "p \<in> set (added_fks (Create_Table (stripped db1 t)))"
  then obtain c where p: "p = (name t, c)"
    and c: "c \<in> set (od_values (constraints (stripped db1 t)))" by auto
  from c have ok: "find_1215 db1 t c = None" by (simp add: stripped_values [OF wt])
  have "find_1215 db2 (stripped db1 t) c = None"
  proof (rule find_1215_None_cong [OF ok])
    show "same_columns t (stripped db1 t)" by (simp add: same_columns_def option.rel_refl)
  next
    fix u assume "map_of (tables db1) (fk_foreign_table c) = Some u"
    with ext show "\<exists>u2. map_of (tables db2) (fk_foreign_table c) = Some u2 \<and> same_shape u u2"
      unfolding db_extends_def by blast
  qed
  moreover have "map_of (constraints (stripped db1 t)) (fk_name c) = Some c"
    using stripped_keyed [OF wt] c by (rule keyed_by_value)
  ultimately show "fk_satisfied db2 p" using here p by (simp add: fk_satisfied_def)
qed

lemma break_cycles_safe:
  assumes "break_cycles db_to db1 (map name ts) (Some ops, fk_ops) = Returned (r_ops, r_fks)"
    and "\<forall>t \<in> set ts. map_of (tables db_to) (name t) = Some t \<and> wf_table t"
    and "distinct (map name ts)"
    and "safe_to db0 ops db" and "db_extends db1 db"
    and "\<forall>t \<in> set ts. \<not> od_in (name t) (tables db)"
  shows "\<exists>db2. r_ops = Some (ops @ map (\<lambda>t. Create_Table (stripped db1 t)) ts)
       \<and> r_fks = fk_ops @ map (restore db1) ts
       \<and> safe_to db0 (ops @ map (\<lambda>t. Create_Table (stripped db1 t)) ts) db2
       \<and> (\<forall>t \<in> set ts. map_of (tables db2) (name t) = Some (stripped db1 t))
       \<and> (\<forall>k. k \<notin> name ` set ts \<longrightarrow> map_of (tables db2) k = map_of (tables db) k)"
  using assms
proof (induction ts arbitrary: ops fk_ops db)
  case Nil
  then show ?case by auto
next
  case (Cons t ts)
  let ?t2 = "stripped db1 t"
  let ?db = "add_table ?t2 db"
  from Cons.prems(2) have t: "map_of (tables db_to) (name t) = Some t" and wt: "wf_table t"
    by auto
  have bad: "map snd (od_values (unfulfilled_fks db1 t)) = bad_constraints db1 t"
    by (simp add: bad_constraints_def)
  obtain t2 where s: "strip_constraints (bad_constraints db1 t) t = Returned t2"
    using Cons.prems(1) t bad
    by (cases "strip_constraints (bad_constraints db1 t) t")
       (auto simp: obind_def od_get_def Let_def)
  from strip_constraints_result [OF s] have t2: "t2 = ?t2" by (simp add: stripped_def)
  have run: "break_cycles db_to db1 (map name ts)
      (Some (ops @ [Create_Table ?t2]), fk_ops @ [restore db1 t]) = Returned (r_ops, r_fks)"
    using Cons.prems(1) t bad s t2 by (simp add: obind_def od_get_def Let_def restore_def)
  have fresh: "\<not> od_in (name ?t2) (tables db)" using Cons.prems(6) by simp
  have ext: "db_extends db ?db" using fresh by (rule db_extends_add_table)
  have ext1: "db_extends db1 ?db" using Cons.prems(5) ext by (rule db_extends_trans)
  have here: "map_of (tables ?db) (name t) = Some ?t2" by (simp add: map_of_add_table)
  have old: "list_all (fk_satisfied ?db) (concat (map added_fks ops))"
    using safe_to_all [OF Cons.prems(4)] ext
    by (auto simp: list_all_iff intro: fk_satisfied_extends)
  have new: "list_all (fk_satisfied ?db) (added_fks (Create_Table ?t2))"
    using wt ext1 here by (rule create_stripped_satisfied)
  have safe: "safe_to db0 (ops @ [Create_Table ?t2]) ?db"
    by (rule safe_to_snoc [OF Cons.prems(4)]) (use old new in auto)
  have rest: "\<forall>t \<in> set ts. map_of (tables db_to) (name t) = Some t \<and> wf_table t"
    using Cons.prems(2) by simp
  have dist: "distinct (map name ts)" and nt: "name t \<notin> name ` set ts"
    using Cons.prems(3) by auto
  have fresh2: "\<forall>u \<in> set ts. \<not> od_in (name u) (tables ?db)"
  proof
    fix u assume u: "u \<in> set ts"
    with nt have "name u \<noteq> name t" by (metis imageI)
    with Cons.prems(6) u show "\<not> od_in (name u) (tables ?db)"
      by (simp add: od_in_add_table)
  qed
  from Cons.IH [OF run rest dist safe ext1 fresh2] obtain db2 where
    a: "r_ops = Some ((ops @ [Create_Table ?t2]) @ map (\<lambda>t. Create_Table (stripped db1 t)) ts)"
    and b: "r_fks = (fk_ops @ [restore db1 t]) @ map (restore db1) ts"
    and c: "safe_to db0 ((ops @ [Create_Table ?t2]) @ map (\<lambda>t. Create_Table (stripped db1 t)) ts) db2"
    and d: "\<forall>t \<in> set ts. map_of (tables db2) (name t) = Some (stripped db1 t)"
    and e: "\<forall>k. k \<notin> name ` set ts \<longrightarrow> map_of (tables db2) k = map_of (tables ?db) k"
    by blast
  from e nt here have d0: "map_of (tables db2) (name t) = Some ?t2" by simp
  have e2: "\<forall>k. k \<notin> name ` set (t # ts) \<longrightarrow> map_of (tables db2) k = map_of (tables db) k"
    using e by (auto simp: map_of_add_table)
  from a b c d d0 e2 show ?case by auto
qed

lemma remove_tables_safe:
  assumes "remove_tables ns (Some ops, trk) = Returned (r_ops, r_trk)"
    and "safe_to db0 ops db"
    and "\<forall>n \<in> set ns. \<forall>(m, c) \<in> set (concat (map added_fks ops)). m \<noteq> n \<and> fk_foreign_table c \<noteq> n"
  shows "\<exists>db2. r_ops = Some (ops @ map Remove_Table ns)
       \<and> safe_to db0 (ops @ map Remove_Table ns) db2
       \<and> (\<forall>k. k \<notin> set ns \<longrightarrow> map_of (tables db2) k = map_of (tables db) k)"
  using assms
proof (induction ns arbitrary: ops trk db)
  case Nil
  then show ?case by auto
next
  case (Cons n ns)
  let ?db = "remove_table n db"
  have run: "remove_tables ns (Some (ops @ [Remove_Table n]), remove_table n trk)
      = Returned (r_ops, r_trk)"
    using Cons.prems(1) by simp
  have sat: "list_all (fk_satisfied ?db) (concat (map added_fks ops))"
    unfolding list_all_iff
  proof
    fix p assume p: "p \<in> set (concat (map added_fks ops))"
    obtain m c where mc: "p = (m, c)" by (cases p)
    from safe_to_all [OF Cons.prems(2)] p mc have "fk_satisfied db (m, c)"
      unfolding list_all_iff by blast
    moreover from Cons.prems(3) p mc have "m \<noteq> n \<and> fk_foreign_table c \<noteq> n" by auto
    ultimately show "fk_satisfied ?db p" using mc by (simp add: fk_satisfied_remove_table)
  qed
  have safe: "safe_to db0 (ops @ [Remove_Table n]) ?db"
    by (rule safe_to_snoc [OF Cons.prems(2)]) (use sat in auto)
  have pre: "\<forall>k \<in> set ns. \<forall>(m, c) \<in> set (concat (map added_fks (ops @ [Remove_Table n]))).
      m \<noteq> k \<and> fk_foreign_table c \<noteq> k"
    using Cons.prems(3) by auto
  from Cons.IH [OF run safe pre] obtain db2 where
    a: "r_ops = Some ((ops @ [Remove_Table n]) @ map Remove_Table ns)"
    and b: "safe_to db0 ((ops @ [Remove_Table n]) @ map Remove_Table ns) db2"
    and c: "\<forall>k. k \<notin> set ns \<longrightarrow> map_of (tables db2) k = map_of (tables ?db) k"
    by blast
  have "\<forall>k. k \<notin> set (n # ns) \<longrightarrow> map_of (tables db2) k = map_of (tables db) k"
    using c by (auto simp: remove_table_def)
  with a b show ?case by auto
qed

lemma keyed_by_distinct_values: "keyed_by f d \<Longrightarrow> distinct (map f (od_values d))"
proof -
  assume a: "keyed_by f d"
  then have "map f (od_values d) = od_keys d"
    by (auto simp: keyed_by_def od_values_def od_keys_def list_all_iff)
  with a show ?thesis by (simp add: keyed_by_def)
qed

lemma bad_constraints_distinct:
  "wf_table t \<Longrightarrow> distinct (map fk_name (bad_constraints db t))"
  unfolding bad_constraints_eq
  by (intro distinct_map_filter keyed_by_distinct_values) (simp add: wf_table_def)

lemma bad_constraints_fresh:
  "c \<in> set (bad_constraints db t) \<Longrightarrow> \<not> od_in (fk_name c) (constraints (stripped db t))"
  by (auto simp: stripped_def od_in_def od_keys_def)

lemma map_of_named: "distinct (map f cs) \<Longrightarrow> c \<in> set cs \<Longrightarrow> map_of (map (\<lambda>c. (f c, c)) cs) (f c) = Some c"
  by (rule map_of_is_SomeI) (auto simp: comp_def)

lemma restore_safe:
  assumes safe: "safe_to db0 ops db" and wt: "wf_table t"
    and here: "map_of (tables db) (name t) = Some (stripped db1 t)"
    and ok: "unfulfilled_fks db_to t = []" and cov: "covers db_to db"
  shows "\<exists>db2. safe_to db0 (ops @ [restore db1 t]) db2 \<and> db_extends db db2
       \<and> (\<forall>k. k \<noteq> name t \<longrightarrow> map_of (tables db2) k = map_of (tables db) k)"
proof -
  let ?bad = "bad_constraints db1 t"
  let ?t1 = "stripped db1 t"
  let ?t2 = "?t1\<lparr>constraints := constraints ?t1 @ map (\<lambda>c. (fk_name c, c)) ?bad\<rparr>"
  let ?db = "db\<lparr>tables := AList.update (name t) ?t2 (tables db)\<rparr>"
  have d: "distinct (map fk_name ?bad)" using wt by (rule bad_constraints_distinct)
  have f: "\<forall>c \<in> set ?bad. \<not> od_in (fk_name c) (constraints ?t1)"
    by (simp add: bad_constraints_fresh)
  have ap: "apply_operation (restore db1 t) db = Returned ?db"
    using here apply_add_constraints [OF d f]
    by (simp add: restore_def obind_def od_get_def)
  have sh: "same_shape ?t1 ?t2"
    by (simp add: same_shape_def same_columns_def same_indexes_def option.rel_refl)
  have kc: "keeps_constraints ?t1 ?t2"
    by (simp add: keeps_constraints_def map_add_Some_iff)
  have ext: "db_extends db ?db" using here sh kc by (rule db_extends_alter)
  have cov2: "covers db_to ?db" using cov ext by (rule covers_extends)
  have old: "list_all (fk_satisfied ?db) (concat (map added_fks ops))"
    using safe_to_all [OF safe] ext
    by (auto simp: list_all_iff intro: fk_satisfied_extends)
  have new: "list_all (fk_satisfied ?db) (added_fks (restore db1 t))"
    unfolding list_all_iff
  proof
    fix p assume "p \<in> set (added_fks (restore db1 t))"
    then obtain c where p: "p = (name t, c)" and c: "c \<in> set ?bad"
      by (auto simp: restore_def)
    from c have cv: "c \<in> set (od_values (constraints t))" by (simp add: bad_constraints_eq)
    with ok have fine: "find_1215 db_to t c = None" by (simp add: unfulfilled_fks_Nil)
    have "find_1215 ?db ?t2 c = None"
    proof (rule find_1215_None_cong [OF fine])
      show "same_columns t ?t2" by (simp add: same_columns_def option.rel_refl)
    next
      fix u assume "map_of (tables db_to) (fk_foreign_table c) = Some u"
      with cov2 show "\<exists>u2. map_of (tables ?db) (fk_foreign_table c) = Some u2 \<and> same_shape u u2"
        unfolding covers_def by blast
    qed
    moreover have "map_of (constraints ?t2) (fk_name c) = Some c"
    proof -
      from f c have "map_of (constraints ?t1) (fk_name c) = None"
        by (simp add: od_in_map_of)
      with map_of_named [OF d c] show ?thesis by (simp add: map_add_def)
    qed
    moreover have "map_of (tables ?db) (name t) = Some ?t2" by (simp add: update_conv')
    ultimately show "fk_satisfied ?db p" using p by (simp add: fk_satisfied_def)
  qed
  have "safe_to db0 (ops @ [restore db1 t]) ?db"
    by (rule safe_to_snoc [OF safe ap]) (use old new in auto)
  moreover have "\<forall>k. k \<noteq> name t \<longrightarrow> map_of (tables ?db) k = map_of (tables db) k"
    by (simp add: update_conv')
  ultimately show ?thesis using ext by blast
qed

lemma flush_safe:
  assumes "safe_to db0 ops db" and "distinct (map name ts)"
    and "\<forall>t \<in> set ts. wf_table t \<and> map_of (tables db) (name t) = Some (stripped db1 t)
           \<and> unfulfilled_fks db_to t = []"
    and "covers db_to db"
  shows "\<exists>db2. safe_to db0 (ops @ map (restore db1) ts) db2"
  using assms
proof (induction ts arbitrary: ops db)
  case Nil
  then show ?case by auto
next
  case (Cons t ts)
  from Cons.prems(3) have wt: "wf_table t"
    and here: "map_of (tables db) (name t) = Some (stripped db1 t)"
    and ok: "unfulfilled_fks db_to t = []" by auto
  from restore_safe [OF Cons.prems(1) wt here ok Cons.prems(4)] obtain db2 where
    safe: "safe_to db0 (ops @ [restore db1 t]) db2" and ext: "db_extends db db2"
    and same: "\<forall>k. k \<noteq> name t \<longrightarrow> map_of (tables db2) k = map_of (tables db) k" by blast
  have dist: "distinct (map name ts)" and nt: "name t \<notin> name ` set ts"
    using Cons.prems(2) by auto
  have rest: "\<forall>u \<in> set ts. wf_table u \<and> map_of (tables db2) (name u) = Some (stripped db1 u)
           \<and> unfulfilled_fks db_to u = []"
  proof
    fix u assume u: "u \<in> set ts"
    with nt have "name u \<noteq> name t" by (metis imageI)
    with same have "map_of (tables db2) (name u) = map_of (tables db) (name u)" by simp
    with Cons.prems(3) u show "wf_table u \<and> map_of (tables db2) (name u) = Some (stripped db1 u)
           \<and> unfulfilled_fks db_to u = []" by simp
  qed
  have cov: "covers db_to db2" using Cons.prems(4) ext by (rule covers_extends)
  from Cons.IH [OF safe dist rest cov] show ?case by simp
qed

subsection \<open>The plan\<close>

lemma wf_keys_distinct: "wf_database db \<Longrightarrow> distinct (od_keys (tables db))"
  by (simp add: wf_database_def keyed_by_def)

lemma renderings_faithful_table:
  assumes "renderings_faithful d db_to" and "map_of (tables d) n = Some u"
    and "map_of (tables db_to) n = Some t"
  shows "faithful_rendering u t"
proof -
  from assms(2) have "(n, u) \<in> set (tables d)" by (rule map_of_SomeD)
  with assms(1) have "case map_of (tables db_to) n of None \<Rightarrow> True
      | Some t \<Rightarrow> faithful_rendering u t"
    by (auto simp: renderings_faithful_def list_all_iff)
  with assms(3) show ?thesis by simp
qed

lemma pick_tables:
  assumes "\<forall>n \<in> set ns. \<exists>t :: table. name t = n \<and> Q t"
  shows "\<exists>ts :: table list. map name ts = ns \<and> (\<forall>t \<in> set ts. Q t)"
  using assms
proof (induction ns)
  case Nil
  then show ?case by simp
next
  case (Cons n ns)
  then obtain t ts where "name t = n" "Q t" "map name ts = ns" "\<forall>t \<in> set ts. Q t"
    by auto
  then have "map name (t # ts) = n # ns \<and> (\<forall>u \<in> set (t # ts). Q u)" by simp
  then show ?case by (rule exI [of _ "t # ts"])
qed

lemma plan_from_safe:
  assumes wf: "wf_database db_to"
    and from_ok: "case db_from of None \<Rightarrow> True
          | Some d \<Rightarrow> wf_database d \<and> renderings_faithful d db_to \<and> refs_closed db_to"
    and run: "plan_from db_to db_from = Returned ([], Some ops)"
  shows "fk_safe (case db_from of Some d \<Rightarrow> d | None \<Rightarrow> empty_database) ops"
proof -
  let ?db0 = "case db_from of Some d \<Rightarrow> d | None \<Rightarrow> empty_database"
  let ?from = "case db_from of Some d \<Rightarrow> tables d | None \<Rightarrow> []"
  have from0: "tables ?db0 = ?from" by (simp add: empty_database_def split: option.splits)
  define pending where "pending = [key \<leftarrow> od_keys (tables db_to). \<not> od_in key ?from]"
  define removes where "removes = [key \<leftarrow> od_keys ?from. \<not> od_in key (tables db_to)]"
  define updates where "updates = [key \<leftarrow> od_keys ?from. od_in key (tables db_to)]"
  have diff: "differences ?from (tables db_to) = (pending, removes, updates)"
    by (simp add: differences_def pending_def removes_def updates_def)
  from plan_from_returned [OF run diff] obtain s1 where
    s1: "process_adds db_to ?db0 pending = Returned s1" and e1: "errors_1215 s1 = []"
    and upd: "process_updates db_to db_from updates = Returned ([], [])"
    and fin: "finish db_to (tracking_db s1) (tables_to_add s1) removes [] (Some (operations s1)) []
         = Returned ([], Some ops)" by blast
  have dist: "distinct pending" using wf_keys_distinct [OF wf] by (simp add: pending_def)
  have disj: "\<forall>n \<in> set pending. \<not> od_in n (tables ?db0)"
    unfolding from0 by (simp add: pending_def)
  have inv: "adds_inv db_to ?db0 pending s1"
    by (rule process_adds_inv [OF wf dist disj s1])
  have blk: "all_blocked db_to s1" using s1 by (rule process_adds_all_blocked)
  let ?db1 = "tracking_db s1"
  from inv have safe1: "safe_to ?db0 (operations s1) ?db1"
    and dist1: "distinct (tables_to_add s1)"
    and disj1: "\<forall>n \<in> set (tables_to_add s1). \<not> od_in n (tables ?db1)"
    and ext01: "db_extends ?db0 ?db1"
    and cov1: "\<forall>n \<in> set pending. n \<in> set (tables_to_add s1)
              \<or> (\<exists>t. map_of (tables db_to) n = Some t \<and> map_of (tables ?db1) n = Some t)"
    and src1: "\<forall>(m, c) \<in> set (concat (map added_fks (operations s1))).
            \<exists>t. map_of (tables db_to) m = Some t \<and> c \<in> set (od_values (constraints t))"
    using e1 unfolding adds_inv_def by blast+
  have "\<forall>n \<in> set (tables_to_add s1). \<exists>t. name t = n
      \<and> (map_of (tables db_to) (name t) = Some t \<and> wf_table t \<and> unfulfilled_fks db_to t = [])"
  proof
    fix n assume "n \<in> set (tables_to_add s1)"
    with blk have "blocked db_to ?db1 n" by (simp add: all_blocked_def list_all_iff)
    then obtain t where t: "map_of (tables db_to) n = Some t" and ok: "unfulfilled_fks db_to t = []"
      by (auto simp: blocked_def split: option.splits)
    from wf_database_table [OF wf t] have "name t = n" and "wf_table t" by simp_all
    with t ok show "\<exists>t. name t = n
      \<and> (map_of (tables db_to) (name t) = Some t \<and> wf_table t \<and> unfulfilled_fks db_to t = [])"
      by blast
  qed
  from pick_tables [OF this] obtain ts where names: "map name ts = tables_to_add s1"
    and tsQ: "\<forall>t \<in> set ts. map_of (tables db_to) (name t) = Some t \<and> wf_table t
        \<and> unfulfilled_fks db_to t = []" by blast
  have ts1: "\<forall>t \<in> set ts. map_of (tables db_to) (name t) = Some t \<and> wf_table t"
    using tsQ by blast
  have ts_ok: "\<forall>t \<in> set ts. unfulfilled_fks db_to t = []"
    using tsQ by blast
  have dts: "distinct (map name ts)" using dist1 names by simp
  have fresh: "\<forall>t \<in> set ts. \<not> od_in (name t) (tables ?db1)"
  proof
    fix t assume "t \<in> set ts"
    then have "name t \<in> set (map name ts)" by simp
    with names disj1 show "\<not> od_in (name t) (tables ?db1)" by simp
  qed
  \<comment> \<open>the cycle break\<close>
  obtain o1 f1 where bc: "break_cycles db_to ?db1 (map name ts) (Some (operations s1), [])
      = Returned (o1, f1)"
    using fin names
    by (cases "break_cycles db_to ?db1 (map name ts) (Some (operations s1), [])")
       (auto simp: finish_def obind_def)
  let ?creates = "map (\<lambda>t. Create_Table (stripped ?db1 t)) ts"
  from break_cycles_safe [OF bc ts1 dts safe1 db_extends_refl fresh] obtain db2 where
    o1: "o1 = Some (operations s1 @ ?creates)"
    and f1: "f1 = map (restore ?db1) ts"
    and safe2: "safe_to ?db0 (operations s1 @ ?creates) db2"
    and in2: "\<forall>t \<in> set ts. map_of (tables db2) (name t) = Some (stripped ?db1 t)"
    and out2: "\<forall>k. k \<notin> name ` set ts \<longrightarrow> map_of (tables db2) k = map_of (tables ?db1) k"
    by auto
  \<comment> \<open>the drops\<close>
  obtain o2 trk2 where rt: "remove_tables removes (o1, ?db1) = Returned (o2, trk2)"
    using fin names bc
    by (cases "remove_tables removes (o1, ?db1)") (auto simp: finish_def obind_def)
  have src2: "\<forall>(m, c) \<in> set (concat (map added_fks (operations s1 @ ?creates))).
            \<exists>t. map_of (tables db_to) m = Some t \<and> c \<in> set (od_values (constraints t))"
  proof -
    have "\<forall>(m, c) \<in> set (concat (map added_fks ?creates)).
            \<exists>t. map_of (tables db_to) m = Some t \<and> c \<in> set (od_values (constraints t))"
    proof (clarify)
      fix m c assume "(m, c) \<in> set (concat (map added_fks ?creates))"
      then obtain t where t: "t \<in> set ts" and m: "m = name t"
        and c: "c \<in> set (od_values (constraints (stripped ?db1 t)))" by auto
      from ts1 t have "map_of (tables db_to) (name t) = Some t" and "wf_table t" by auto
      with c m show "\<exists>t. map_of (tables db_to) m = Some t \<and> c \<in> set (od_values (constraints t))"
        by (auto simp: stripped_values)
    qed
    with src1 show ?thesis by auto
  qed
  have keep: "\<forall>n \<in> set removes. \<forall>(m, c) \<in> set (concat (map added_fks (operations s1 @ ?creates))).
      m \<noteq> n \<and> fk_foreign_table c \<noteq> n"
  proof (cases db_from)
    case None
    then show ?thesis by (simp add: removes_def od_keys_def)
  next
    case (Some d)
    with from_ok have closed: "refs_closed db_to" by simp
    show ?thesis
    proof (intro ballI, clarify)
      fix n m c assume n: "n \<in> set removes"
        and mc: "(m, c) \<in> set (concat (map added_fks (operations s1 @ ?creates)))"
      from n have absent: "\<not> od_in n (tables db_to)" by (simp add: removes_def)
      from src2 mc obtain t where t: "map_of (tables db_to) m = Some t"
        and c: "c \<in> set (od_values (constraints t))" by blast
      from t have "od_in m (tables db_to)" by (simp add: od_in_map_of)
      moreover from closed map_of_value [OF t] c have "od_in (fk_foreign_table c) (tables db_to)"
        by (simp add: refs_closed_def)
      ultimately show "m \<noteq> n \<and> fk_foreign_table c \<noteq> n" using absent by auto
    qed
  qed
  from remove_tables_safe [OF rt [unfolded o1] safe2 keep] obtain db3 where
    o2: "o2 = Some (operations s1 @ ?creates @ map Remove_Table removes)"
    and safe3: "safe_to ?db0 ((operations s1 @ ?creates) @ map Remove_Table removes) db3"
    and out3: "\<forall>k. k \<notin> set removes \<longrightarrow> map_of (tables db3) k = map_of (tables db2) k"
    by auto
  \<comment> \<open>the operations of the plan\<close>
  have ops: "ops = ((operations s1 @ ?creates) @ map Remove_Table removes) @ map (restore ?db1) ts"
    using fin names bc rt o1 o2 f1
    by (auto simp: finish_def obind_def split: if_splits)
  \<comment> \<open>every table of the target is there, in its shape, when the deferred keys are added\<close>
  have target_kept: "\<And>n. od_in n (tables db_to) \<Longrightarrow> n \<notin> set removes"
    by (simp add: removes_def)
  have cov: "covers db_to db3"
    unfolding covers_def
  proof (intro allI impI)
    fix n t assume t: "map_of (tables db_to) n = Some t"
    then have in_to: "od_in n (tables db_to)" by (simp add: od_in_map_of)
    from target_kept [OF in_to] out3 have m3: "map_of (tables db3) n = map_of (tables db2) n"
      by simp
    show "\<exists>u. map_of (tables db3) n = Some u \<and> same_shape t u"
    proof (cases "n \<in> set (tables_to_add s1)")
      case True
      with names have "n \<in> set (map name ts)" by simp
      then obtain t' where t': "t' \<in> set ts" and nt': "name t' = n" by auto
      with ts1 t have "t' = t" by auto
      with t' nt' in2 have "map_of (tables db2) n = Some (stripped ?db1 t)" by auto
      with m3 show ?thesis by simp
    next
      case False
      with names have "n \<notin> name ` set ts" by (metis set_map)
      with out2 m3 have m1: "map_of (tables db3) n = map_of (tables ?db1) n" by simp
      show ?thesis
      proof (cases "n \<in> set pending")
        case True
        with cov1 False t have "map_of (tables ?db1) n = Some t" by auto
        with m1 show ?thesis by simp
      next
        case False
        have "n \<in> set (od_keys (tables db_to))" using in_to by (simp add: od_in_def)
        with False have in_from: "od_in n ?from" by (simp add: pending_def)
        then obtain d where d: "db_from = Some d" by (cases db_from) (auto simp: od_in_def od_keys_def)
        from in_from d obtain u where u: "map_of (tables d) n = Some u"
          by (auto simp: od_in_map_of)
        from in_from in_to d have "n \<in> set updates" by (simp add: updates_def od_in_def)
        from process_updates_no_diff [OF upd [unfolded d] this] u t obtain diff where
          "to u t True = Returned (Split diff)" and "kitchen_sink diff = None" by auto
        moreover from from_ok d have wd: "wf_database d" and rf: "renderings_faithful d db_to"
          by simp_all
        moreover have "wf_table u" using wf_database_table [OF wd u] by simp
        moreover have "wf_table t" using wf_database_table [OF wf t] by simp
        moreover have "faithful_rendering u t" using rf u t by (rule renderings_faithful_table)
        ultimately have ut: "same_shape u t" by (intro no_diff_same_shape)
        from ext01 d u obtain u1 where u1: "map_of (tables ?db1) n = Some u1"
          and uu: "same_shape u u1" unfolding db_extends_def by auto
        from ut uu have "same_shape t u1" by (blast intro: same_shape_sym same_shape_trans)
        with m1 u1 show ?thesis by simp
      qed
    qed
  qed
  have stripped_there: "\<forall>t \<in> set ts. wf_table t \<and> map_of (tables db3) (name t) = Some (stripped ?db1 t)
           \<and> unfulfilled_fks db_to t = []"
  proof
    fix t assume t: "t \<in> set ts"
    with ts1 have "od_in (name t) (tables db_to)" by (auto simp: od_in_map_of)
    from target_kept [OF this] out3 in2 t
    have "map_of (tables db3) (name t) = Some (stripped ?db1 t)" by simp
    with ts1 ts_ok t show "wf_table t \<and> map_of (tables db3) (name t) = Some (stripped ?db1 t)
           \<and> unfulfilled_fks db_to t = []" by simp
  qed
  from flush_safe [OF safe3 dts stripped_there cov] ops obtain db4 where
    "safe_to ?db0 ops db4" by auto
  then show ?thesis by (simp add: safe_to_def)
qed

lemma plan_is_fk_safe:
  assumes "accepted db_to db_from"
    and "mygration db_to db_from = Returned ([], Some ops)"
  shows "fk_safe (case db_from of Some d \<Rightarrow> d | None \<Rightarrow> empty_database) ops"
proof (cases db_from)
  case None
  with assms show ?thesis
    using plan_from_safe [of db_to None ops] by (simp add: accepted_def mygration_def)
next
  case (Some d)
  from assms(1) Some have wf: "wf_database db_to" and wd: "wf_database d"
    and rf: "renderings_faithful d db_to" by (simp_all add: accepted_def)
  from assms(2) Some obtain ce x where alone: "plan_from db_to None = Returned (ce, x)"
    by (cases "plan_from db_to None") (auto simp: mygration_def obind_def)
  with assms(2) Some have ce: "ce = []" and run: "plan_from db_to (Some d) = Returned ([], Some ops)"
    by (auto simp: mygration_def obind_def split: if_splits)
  from standalone_refs_closed [OF wf alone [unfolded ce]] have "refs_closed db_to" .
  with wf wd rf run Some show ?thesis
    using plan_from_safe [of db_to "Some d" ops] by simp
qed

text \<open>
  C1. Take a target and, if any, a source that are well formed (names unique, every object
  filed under its name) and whose equal renderings come from equal types and key columns.
  When the planner returns operations and no 1215 error, every prefix of the operations
  applies to the source (to the empty database without one), and each foreign key that the
  prefix has added, in a \<^verbatim>\<open>CREATE TABLE\<close> or by \<^verbatim>\<open>ADD CONSTRAINT\<close>, is a constraint
  of its table in the schema reached and passes the check of \<^verbatim>\<open>unfulfilled_fks\<close> there.
\<close>

theorem fk_safety:
  assumes "accepted db_to db_from"
    and "mygration db_to db_from = Returned ([], Some ops)"
    and "k \<le> length ops"
  shows "\<exists>db. apply_operations (take k ops)
            (case db_from of Some d \<Rightarrow> d | None \<Rightarrow> empty_database) = Returned db
          \<and> list_all (fk_satisfied db) (concat (map added_fks (take k ops)))"
proof -
  from plan_is_fk_safe [OF assms(1,2)] assms(3)
  have "fk_safe_prefix (case db_from of Some d \<Rightarrow> d | None \<Rightarrow> empty_database) (take k ops)"
    unfolding fk_safe_iff by blast
  then show ?thesis
    by (auto simp: fk_safe_prefix_def split: outcome.splits)
qed

theorem fk_safety_witness:
  "accepted target_example (Some source_example)
   \<and> mygration target_example (Some source_example) = Returned ([], Some plan_example)
   \<and> (\<exists>db. apply_operations (take 6 plan_example) source_example = Returned db
         \<and> list_all (fk_satisfied db) (concat (map added_fks (take 6 plan_example))))"
proof -
  have a: "accepted target_example (Some source_example)"
    by code_simp
  have b: "mygration target_example (Some source_example) = Returned ([], Some plan_example)"
    by code_simp
  have c: "6 \<le> length plan_example"
    by (simp add: plan_example_def)
  from fk_safety [OF a b c] a b show ?thesis by simp
qed

end
